theory Spec2Isabelle
  imports Complex_Main "HOL-Library.Monad_Syntax" "HOL-Library.Sublist"
begin

section \<open>Values of the host language\<close>

text \<open>
  The converter (\<^verbatim>\<open>src/converter.js\<close>) works on the result of \<^verbatim>\<open>JSON.parse\<close>.
  Where the code dispatches on the dynamic type of a value (\<^verbatim>\<open>typeof\<close>,
  \<^verbatim>\<open>Array.isArray\<close>, truthiness) the value is a \<open>jsval\<close>.

  Numbers: a finite number is kept as the exact rational it denotes (every binary64
  value is one); rounding to binary64 is not part of the model. \<open>Fin 0\<close> stands for
  both zeros. The two infinities and NaN are values of their own: \<^verbatim>\<open>JSON.parse\<close>
  yields \<^verbatim>\<open>Infinity\<close> for a literal such as \<^verbatim>\<open>1e999\<close>.

  Strings: a \<open>string\<close> is the list of code units of the source string, each below 256.
\<close>

datatype jsnum = Fin rat | PosInf | NegInf | NaN

datatype jsval =
    JUndefined
  | JNull
  | JBool bool
  | JNum jsnum
  | JStr string
  | JArr "jsval list"
  | JObj "(string \<times> jsval) list"

text \<open>Truthiness of a value (the test of \<^verbatim>\<open>if (v)\<close>, \<^verbatim>\<open>!v\<close>, \<^verbatim>\<open>v || w\<close>).\<close>

fun truthyNum :: "jsnum \<Rightarrow> bool" where
  "truthyNum (Fin r) = (r \<noteq> 0)"
| "truthyNum PosInf = True"
| "truthyNum NegInf = True"
| "truthyNum NaN = False"

fun truthy :: "jsval \<Rightarrow> bool" where
  "truthy JUndefined = False"
| "truthy JNull = False"
| "truthy (JBool b) = b"
| "truthy (JNum n) = truthyNum n"
| "truthy (JStr s) = (s \<noteq> [])"
| "truthy (JArr _) = True"
| "truthy (JObj _) = True"

text \<open>
  Property read \<^verbatim>\<open>v.k\<close> on a truthy value, for the property names the converter reads
  (\<^verbatim>\<open>parts\<close>, \<^verbatim>\<open>text\<close>, \<^verbatim>\<open>asset_pointer\<close>): an object gives its own property (a
  \<open>JObj\<close> lists each own property once), every other value gives \<^verbatim>\<open>undefined\<close>.
\<close>

fun getProp :: "jsval \<Rightarrow> string \<Rightarrow> jsval" where
  "getProp (JObj ps) k = (case map_of ps k of Some v \<Rightarrow> v | None \<Rightarrow> JUndefined)"
| "getProp _ k = JUndefined"

text \<open>Truthiness of an optional string (an absent one is \<^verbatim>\<open>undefined\<close> or \<^verbatim>\<open>null\<close>).\<close>

fun truthyS :: "string option \<Rightarrow> bool" where
  "truthyS None = False"
| "truthyS (Some s) = (s \<noteq> [])"

text \<open>\<^verbatim>\<open>a || b\<close> on optional strings.\<close>

definition orElse :: "string option \<Rightarrow> string option \<Rightarrow> string option" where
  "orElse a b = (if truthyS a then a else b)"

text \<open>\<^verbatim>\<open>a || null\<close>: every falsy string becomes \<^verbatim>\<open>null\<close>.\<close>

definition orNull :: "string option \<Rightarrow> string option" where
  "orNull a = (if truthyS a then a else None)"

subsection \<open>Built-ins: \<^verbatim>\<open>Math.floor\<close>, \<^verbatim>\<open>parseFloat\<close>, \<^verbatim>\<open>trim\<close>, \<^verbatim>\<open>join\<close>\<close>

fun jsfloor :: "jsnum \<Rightarrow> jsnum" where
  "jsfloor (Fin r) = Fin (of_int \<lfloor>r\<rfloor>)"
| "jsfloor PosInf = PosInf"
| "jsfloor NegInf = NegInf"
| "jsfloor NaN = NaN"

text \<open>Multiplication by a finite non-zero constant, as in \<^verbatim>\<open>createdAt * 1000\<close>.\<close>

fun jsmul1000 :: "jsnum \<Rightarrow> jsnum" where
  "jsmul1000 (Fin r) = Fin (r * 1000)"
| "jsmul1000 PosInf = PosInf"
| "jsmul1000 NegInf = NegInf"
| "jsmul1000 NaN = NaN"

text \<open>
  White space and line terminators below 256: TAB, LF, VT, FF, CR, SP, NBSP.
\<close>

definition isWhiteSpace :: "char \<Rightarrow> bool" where
  "isWhiteSpace c = ((of_char c :: nat) \<in> {9, 10, 11, 12, 13, 32, 160})"

definition trim :: "string \<Rightarrow> string" where
  "trim s = rev (dropWhile isWhiteSpace (rev (dropWhile isWhiteSpace s)))"

fun join :: "string \<Rightarrow> string list \<Rightarrow> string" where
  "join sep [] = []"
| "join sep [x] = x"
| "join sep (x # y # ys) = x @ sep @ join sep (y # ys)"

definition isDigit :: "char \<Rightarrow> bool" where
  "isDigit c = (48 \<le> (of_char c :: nat) \<and> (of_char c :: nat) \<le> 57)"

definition digitsVal :: "string \<Rightarrow> nat" where
  "digitsVal ds = foldl (\<lambda>a c. 10 * a + ((of_char c :: nat) - 48)) 0 ds"

text \<open>
  The exponent part of a decimal literal: \<^verbatim>\<open>e\<close> or \<^verbatim>\<open>E\<close>, an optional sign and at
  least one digit; anything else is no exponent. The result is the power of ten as a
  sign and a magnitude.
\<close>

definition exponentPart :: "string \<Rightarrow> bool \<times> nat" where
  "exponentPart s =
     (case s of
        [] \<Rightarrow> (False, 0)
      | c # r \<Rightarrow>
          if c = CHR ''e'' \<or> c = CHR ''E'' then
            (case r of
               [] \<Rightarrow> (False, 0)
             | d # r' \<Rightarrow>
                 if d = CHR ''-'' then
                   (if takeWhile isDigit r' = [] then (False, 0)
                    else (True, digitsVal (takeWhile isDigit r')))
                 else if d = CHR ''+'' then (False, digitsVal (takeWhile isDigit r'))
                 else (False, digitsVal (takeWhile isDigit r)))
          else (False, 0))"

text \<open>
  \<^verbatim>\<open>parseFloat\<close>: leading white space is skipped, then the longest prefix that is a
  signed decimal literal (or \<^verbatim>\<open>Infinity\<close>) is read; \<^verbatim>\<open>NaN\<close> when there is none.
\<close>

definition parseUnsigned :: "string \<Rightarrow> jsnum" where
  "parseUnsigned u =
     (if prefix ''Infinity'' u then PosInf
      else
        let ip = takeWhile isDigit u;
            r1 = dropWhile isDigit u;
            fp = (case r1 of [] \<Rightarrow> [] | c # r \<Rightarrow> if c = CHR ''.'' then takeWhile isDigit r else []);
            r2 = (case r1 of [] \<Rightarrow> [] | c # r \<Rightarrow> if c = CHR ''.'' then dropWhile isDigit r else r1)
        in if ip = [] \<and> fp = [] then NaN
           else
             let mant = (of_nat (digitsVal (ip @ fp)) :: rat) / 10 ^ length fp
             in (case exponentPart r2 of
                   (True, e) \<Rightarrow> Fin (mant / 10 ^ e)
                 | (False, e) \<Rightarrow> Fin (mant * 10 ^ e)))"

fun jsneg :: "jsnum \<Rightarrow> jsnum" where
  "jsneg (Fin r) = Fin (- r)"
| "jsneg PosInf = NegInf"
| "jsneg NegInf = PosInf"
| "jsneg NaN = NaN"

definition parseFloat :: "string \<Rightarrow> jsnum" where
  "parseFloat s =
     (case dropWhile isWhiteSpace s of
        [] \<Rightarrow> NaN
      | c # r \<Rightarrow>
          if c = CHR ''-'' then jsneg (parseUnsigned r)
          else if c = CHR ''+'' then parseUnsigned r
          else parseUnsigned (c # r))"

section \<open>Leaf functions of the converter\<close>

subsection \<open>\<^verbatim>\<open>sanitizeTimestamp\<close>\<close>

text \<open>The result is a number or \<^verbatim>\<open>null\<close> (\<open>None\<close>).\<close>

definition sanitizeTimestamp :: "jsval \<Rightarrow> jsnum option" where
  "sanitizeTimestamp v =
     (case v of
        JNum n \<Rightarrow> if n \<noteq> NaN then Some (jsfloor n) else None
      | JStr s \<Rightarrow>
          (let parsed = parseFloat s
           in if parsed \<noteq> NaN then Some (jsfloor parsed) else None)
      | _ \<Rightarrow> None)"

subsection \<open>\<^verbatim>\<open>normalizeRole\<close>\<close>

text \<open>
  The argument is \<^verbatim>\<open>message.author && message.author.role\<close>: a string, or absent.
  The \<^verbatim>\<open>default\<close> branch returns \<^verbatim>\<open>role || "assistant"\<close>.
\<close>

definition normalizeRole :: "string option \<Rightarrow> string" where
  "normalizeRole role =
     (if role = Some ''user'' then ''user''
      else if role = Some ''assistant'' then ''assistant''
      else (case role of Some r \<Rightarrow> if r \<noteq> [] then r else ''assistant'' | None \<Rightarrow> ''assistant''))"

section \<open>Data model\<close>

text \<open>
  Identifiers, roles, titles and model slugs are strings or absent (\<open>None\<close> stands for
  \<^verbatim>\<open>undefined\<close> and \<^verbatim>\<open>null\<close>); the empty string is falsy, as in the source.
  Timestamps and \<^verbatim>\<open>message.content\<close> are dynamic values, since the code inspects
  their types.

  \<open>author_role\<close> is \<^verbatim>\<open>message.author && message.author.role\<close>;
  \<open>model_slug\<close> is \<^verbatim>\<open>message.metadata && message.metadata.model_slug\<close>.
\<close>

record message =
  msg_id :: "string option"
  author_role :: "string option"
  content :: jsval
  m_create_time :: jsval
  model_slug :: "string option"

text \<open>
  \<open>children\<close> is \<^verbatim>\<open>node.children\<close> when that is an array, else \<open>[]\<close>: both places
  that read it test \<^verbatim>\<open>Array.isArray(node.children) && node.children.length > 0\<close>.
  A falsy entry of the array is the empty string.
\<close>

record node =
  node_id :: "string option"
  parent :: "string option"
  children :: "string list"
  message :: "message option"

text \<open>
  The node mapping lists the own properties of \<^verbatim>\<open>conversation.mapping\<close> in the order
  of \<^verbatim>\<open>Object.keys\<close>, each key once. A value \<open>None\<close> is a falsy entry (JSON
  \<^verbatim>\<open>null\<close>). A mapping that is absent, or whose \<^verbatim>\<open>typeof\<close> is not
  \<^verbatim>\<open>object\<close>, is \<open>[]\<close>. The conversation itself is an object, and its mapping is
  not \<^verbatim>\<open>null\<close>: on a \<^verbatim>\<open>null\<close> conversation the source raises at
  \<^verbatim>\<open>conversation.create_time\<close>, on a \<^verbatim>\<open>null\<close> mapping at \<^verbatim>\<open>Object.keys\<close>; both
  inputs are outside the types of this model. Property names inherited from
  \<^verbatim>\<open>Object.prototype\<close> are not keys of a mapping.
\<close>

type_synonym node_mapping = "(string \<times> node option) list"

record conversation =
  conversation_id :: "string option"
  conv_id :: "string option"
  title :: "string option"
  c_create_time :: jsval
  c_update_time :: jsval
  current_node :: "string option"
  default_model_slug :: "string option"
  mapping :: node_mapping

text \<open>\<^verbatim>\<open>mapping[k]\<close> as a truthy node, or \<open>None\<close> when the entry is missing or falsy.\<close>

definition lookupNode :: "node_mapping \<Rightarrow> string \<Rightarrow> node option" where
  "lookupNode m k = (case map_of m k of Some (Some n) \<Rightarrow> Some n | _ \<Rightarrow> None)"

text \<open>
  An output message. The two shapes of \<^verbatim>\<open>buildQwenMessage\<close> share one record:
  \<open>q_model\<close> and \<open>q_content_list\<close> belong to the assistant shape, \<open>q_models\<close>
  (\<open>None\<close>: no such field) to the user shape. \<open>q_content_list\<close> holds the
  \<^verbatim>\<open>content\<close> of each entry of \<^verbatim>\<open>content_list\<close>. Fields that are constant in the
  source and \<^verbatim>\<open>modelName\<close> are left out.
\<close>

record qmsg =
  q_id :: "string option"
  q_role :: string
  q_content :: string
  q_content_list :: "string list"
  q_model :: "string option"
  q_models :: "string list option"
  q_parentId :: "string option"
  q_childrenIds :: "string list"
  q_timestamp :: "jsnum option"

text \<open>\<open>meta_timestamp = None\<close>: the object has no \<^verbatim>\<open>timestamp\<close> property.\<close>

record meta =
  meta_timestamp :: "jsnum option"
  tags :: "string list"

record out_conversation =
  o_id :: string
  o_title :: string
  o_messages :: "qmsg list"
  o_history :: "string \<Rightarrow> qmsg option"
  o_currentId :: "string option"
  o_currentResponseIds :: "string list"
  o_models :: "string list option"
  o_updated_at :: "jsnum option"
  o_created_at :: "jsnum option"
  o_meta :: meta

text \<open>The only exception the modelled code can raise: a property read on \<^verbatim>\<open>undefined\<close>.\<close>

datatype error = TypeError

section \<open>Content extraction, meta, message projection\<close>

fun typeofV :: "jsval \<Rightarrow> string" where
  "typeofV JUndefined = ''undefined''"
| "typeofV JNull = ''object''"
| "typeofV (JBool _) = ''boolean''"
| "typeofV (JNum _) = ''number''"
| "typeofV (JStr _) = ''string''"
| "typeofV (JArr _) = ''object''"
| "typeofV (JObj _) = ''object''"

text \<open>One iteration of the loop over \<^verbatim>\<open>parts\<close>: what it pushes onto \<^verbatim>\<open>textParts\<close>.\<close>

definition pushPart :: "jsval \<Rightarrow> string list \<Rightarrow> string list" where
  "pushPart part textParts =
     (case part of
        JStr s \<Rightarrow> textParts @ [s]
      | _ \<Rightarrow>
          if truthy part \<and> typeofV part = ''object'' then
            (case getProp part ''text'' of
               JStr t \<Rightarrow> textParts @ [t]
             | _ \<Rightarrow>
                 if truthy (getProp part ''asset_pointer'') then textParts @ [''[Asset]'']
                 else textParts)
          else textParts)"

fun collectParts :: "jsval list \<Rightarrow> string list \<Rightarrow> string list" where
  "collectParts [] textParts = textParts"
| "collectParts (part # rest) textParts = collectParts rest (pushPart part textParts)"

definition extractContent :: "message option \<Rightarrow> string" where
  "extractContent msg =
     (case msg of
        None \<Rightarrow> []
      | Some mg \<Rightarrow>
          if \<not> truthy (content mg) then []
          else
            (case getProp (content mg) ''parts'' of
               JArr parts \<Rightarrow> trim (join [CHR 0x0A] (collectParts parts []))
             | _ \<Rightarrow> []))"

definition buildMeta :: "jsnum option \<Rightarrow> meta" where
  "buildMeta createdAt =
     (let timestamp = (case createdAt of
                         Some n \<Rightarrow> if n \<noteq> NaN then Some (jsmul1000 n) else None
                       | None \<Rightarrow> None)
      in (case timestamp of
            Some t \<Rightarrow>
              if truthyNum t then \<lparr>meta_timestamp = Some t, tags = []\<rparr>
              else \<lparr>meta_timestamp = None, tags = []\<rparr>
          | None \<Rightarrow> \<lparr>meta_timestamp = None, tags = []\<rparr>))"

definition buildQwenMessage ::
  "node \<Rightarrow> message \<Rightarrow> string \<Rightarrow> string \<Rightarrow> jsnum option \<Rightarrow> conversation \<Rightarrow> qmsg" where
  "buildQwenMessage nd mg role text timestamp conv =
     (let ident = orElse (msg_id mg) (node_id nd);
          defaultModel = orNull (default_model_slug conv);
          modelSlug = orElse (model_slug mg) defaultModel
      in if role = ''assistant'' then
           \<lparr>q_id = ident, q_role = ''assistant'', q_content = [],
            q_content_list = [text], q_model = orNull modelSlug, q_models = None,
            q_parentId = None, q_childrenIds = [], q_timestamp = timestamp\<rparr>
         else
           \<lparr>q_id = ident, q_role = ''user'', q_content = text,
            q_content_list = [], q_model = None,
            q_models = Some (case modelSlug of
                               Some s \<Rightarrow> if s \<noteq> [] then [s] else []
                             | None \<Rightarrow> []),
            q_parentId = None, q_childrenIds = [], q_timestamp = timestamp\<rparr>)"

section \<open>Sets of identifiers\<close>

text \<open>
  A \<^verbatim>\<open>Set\<close> of strings is the list of its elements in insertion order;
  \<^verbatim>\<open>new Set(list)\<close> and \<^verbatim>\<open>Array.from(new Set(list))\<close> keep first occurrences.
\<close>

definition setAdd :: "string \<Rightarrow> string list \<Rightarrow> string list" where
  "setAdd x s = (if x \<in> set s then s else s @ [x])"

definition setFromList :: "string list \<Rightarrow> string list" where
  "setFromList xs = foldl (\<lambda>s x. setAdd x s) [] xs"

definition collectModelsStep :: "string list \<Rightarrow> qmsg \<Rightarrow> string list" where
  "collectModelsStep models msg =
     (let models1 = (case q_model msg of
                       Some mo \<Rightarrow>
                         if q_role msg = ''assistant'' \<and> mo \<noteq> [] then setAdd mo models
                         else models
                     | None \<Rightarrow> models)
      in (case q_models msg of
            Some ms \<Rightarrow> foldl (\<lambda>s mo. if mo \<noteq> [] then setAdd mo s else s) models1 ms
          | None \<Rightarrow> models1))"

definition collectModels :: "qmsg list \<Rightarrow> string list" where
  "collectModels messages = foldl collectModelsStep [] messages"

section \<open>Path reconstruction\<close>

subsection \<open>\<^verbatim>\<open>findRootNodes\<close>\<close>

definition findRootNodes :: "node_mapping \<Rightarrow> string list" where
  "findRootNodes m =
     filter (\<lambda>nodeId.
        case lookupNode m nodeId of
          None \<Rightarrow> False
        | Some nd \<Rightarrow>
            if \<not> truthyS (parent nd) then True
            else (case parent nd of
                    Some p \<Rightarrow> lookupNode m p = None
                  | None \<Rightarrow> True))
       (map fst m)"

subsection \<open>\<^verbatim>\<open>getPathToRoot\<close>\<close>

text \<open>
  The \<^verbatim>\<open>while\<close> loop has no bound, so it is a partial function: \<open>None\<close> is the run
  that never leaves the loop. \<^verbatim>\<open>path.unshift\<close> puts the identifier in front.
\<close>

partial_function (option) getPathToRootLoop ::
  "node_mapping \<Rightarrow> string option \<Rightarrow> string list \<Rightarrow> string list option" where
  "getPathToRootLoop m currentId path =
     (case currentId of
        None \<Rightarrow> Some path
      | Some cur \<Rightarrow>
          if cur = [] then Some path
          else
            (case lookupNode m cur of
               None \<Rightarrow> Some path
             | Some nd \<Rightarrow> getPathToRootLoop m (orNull (parent nd)) (cur # path)))"

definition getPathToRoot :: "string \<Rightarrow> node_mapping \<Rightarrow> string list option" where
  "getPathToRoot nodeId m = getPathToRootLoop m (Some nodeId) []"

subsection \<open>\<^verbatim>\<open>traverseFromNode\<close>\<close>

text \<open>
  The source mutates the set \<^verbatim>\<open>visited\<close>; the model returns it beside the sequence.
  \<open>traverseChildren\<close> is the \<^verbatim>\<open>for\<close> loop over \<^verbatim>\<open>node.children\<close>, which stops at the
  first child whose traversal is not empty.
\<close>

function traverseFromNode ::
    "node_mapping \<Rightarrow> string \<Rightarrow> string list \<Rightarrow> string list \<times> string list"
  and traverseChildren ::
    "node_mapping \<Rightarrow> string list \<Rightarrow> string list \<Rightarrow> string list \<times> string list"
where
  "traverseFromNode m nodeId visited =
     (if nodeId = [] \<or> nodeId \<in> set visited then ([], visited)
      else
        let visited1 = setAdd nodeId visited
        in (case lookupNode m nodeId of
              None \<Rightarrow> ([], visited1)
            | Some nd \<Rightarrow>
                (case traverseChildren m (children nd) visited1 of
                   (childPath, visited2) \<Rightarrow> (nodeId # childPath, visited2))))"
| "traverseChildren m [] visited = ([], visited)"
| "traverseChildren m (childId # rest) visited =
     (case traverseFromNode m childId visited of
        (childPath, visited1) \<Rightarrow>
          if childPath \<noteq> [] then (childPath, visited1)
          else traverseChildren m rest visited1)"
  by pat_completeness auto

text \<open>
  Termination: every nested call of \<open>traverseFromNode\<close> adds a mapped, unvisited
  identifier to \<^verbatim>\<open>visited\<close>, and \<^verbatim>\<open>visited\<close> never shrinks.
\<close>

definition mapped :: "node_mapping \<Rightarrow> string set" where
  "mapped m = {k. lookupNode m k \<noteq> None}"

definition unvisited :: "node_mapping \<Rightarrow> string list \<Rightarrow> nat" where
  "unvisited m visited = card (mapped m - set visited)"

lemma finite_mapped: "finite (mapped m)"
proof -
  have "mapped m \<subseteq> dom (map_of m)"
    by (auto simp: mapped_def lookupNode_def split: option.splits)
  then show ?thesis using finite_dom_map_of finite_subset by blast
qed

lemma unvisited_mono: "set v \<subseteq> set v' \<Longrightarrow> unvisited m v' \<le> unvisited m v"
  unfolding unvisited_def by (intro card_mono) (auto simp: finite_mapped)

lemma unvisited_less:
  "k \<in> mapped m \<Longrightarrow> k \<notin> set v \<Longrightarrow> unvisited m (setAdd k v) < unvisited m v"
proof -
  assume a: "k \<in> mapped m" "k \<notin> set v"
  have "mapped m - set (v @ [k]) \<subset> mapped m - set v" using a by auto
  moreover have "finite (mapped m - set v)" by (simp add: finite_mapped)
  ultimately have "card (mapped m - set (v @ [k])) < card (mapped m - set v)"
    by (rule psubset_card_mono[rotated])
  then show ?thesis using a by (simp add: unvisited_def setAdd_def)
qed

lemma traverse_visited_mono_dom:
  "traverseFromNode_traverseChildren_dom (Inl (m, n, v)) \<Longrightarrow>
     set v \<subseteq> set (snd (traverseFromNode m n v))"
  "traverseFromNode_traverseChildren_dom (Inr (m, cs, v)) \<Longrightarrow>
     set v \<subseteq> set (snd (traverseChildren m cs v))"
proof (induction m n v and m cs v rule: traverseFromNode_traverseChildren.pinduct)
  case (1 m nodeId visited)
  show ?case
  proof (cases "nodeId = [] \<or> nodeId \<in> set visited")
    case True
    then show ?thesis using 1(1) by (simp add: traverseFromNode.psimps)
  next
    case False
    show ?thesis
    proof (cases "lookupNode m nodeId")
      case None
      then show ?thesis using 1(1) False
        by (auto simp: traverseFromNode.psimps setAdd_def)
    next
      case (Some nd)
      have "set (setAdd nodeId visited)
              \<subseteq> set (snd (traverseChildren m (children nd) (setAdd nodeId visited)))"
        using 1(2)[OF False refl Some] .
      moreover have "set visited \<subseteq> set (setAdd nodeId visited)"
        by (auto simp: setAdd_def)
      ultimately show ?thesis using 1(1) False Some
        by (auto simp: traverseFromNode.psimps split: prod.splits)
    qed
  qed
next
  case (2 m visited)
  then show ?case by (simp add: traverseChildren.psimps)
next
  case (3 m childId rest visited)
  obtain p v1 where pv: "traverseFromNode m childId visited = (p, v1)" by force
  have s1: "set visited \<subseteq> set v1" using 3(2) pv by simp
  show ?case
  proof (cases "p \<noteq> []")
    case True
    then show ?thesis using 3(1) pv s1 by (simp add: traverseChildren.psimps)
  next
    case False
    have "set v1 \<subseteq> set (snd (traverseChildren m rest v1))"
      using 3(3)[OF pv[symmetric]] False by simp
    then show ?thesis using 3(1) pv s1 False by (auto simp: traverseChildren.psimps)
  qed
qed

termination traverseFromNode
proof (relation "inv_image (less_than <*lex*> less_than)
         (\<lambda>x. case x of Inl (m, n, v) \<Rightarrow> (unvisited m v, 0)
                      | Inr (m, cs, v) \<Rightarrow> (unvisited m v, Suc (length cs)))", goal_cases)
  case 1
  then show ?case by (intro wf_inv_image wf_lex_prod wf_less_than)
next
  case (2 m nodeId visited x xa)
  then have "nodeId \<in> mapped m" "nodeId \<notin> set visited" by (auto simp: mapped_def)
  then show ?case using 2 by (simp add: unvisited_less)
next
  case (3 m childId rest visited)
  then show ?case by simp
next
  case (4 m childId rest visited x y)
  then have "set visited \<subseteq> set y"
    using traverse_visited_mono_dom(1)[of m childId visited] by (metis snd_conv)
  then have "unvisited m y \<le> unvisited m visited" by (rule unvisited_mono)
  then show ?case by auto
qed

subsection \<open>\<^verbatim>\<open>expandPath\<close>\<close>

text \<open>
  The loop over \<^verbatim>\<open>path\<close> with its accumulator \<^verbatim>\<open>result\<close>; the \<^verbatim>\<open>break\<close> ends it
  at the first node that has children.
\<close>

fun expandLoop :: "node_mapping \<Rightarrow> string list \<Rightarrow> string list \<Rightarrow> string list" where
  "expandLoop m [] result = result"
| "expandLoop m (nodeId # rest) result =
     (let result1 = result @ [nodeId]
      in (case lookupNode m nodeId of
            None \<Rightarrow> expandLoop m rest result1
          | Some nd \<Rightarrow>
              (case children nd of
                 [] \<Rightarrow> expandLoop m rest result1
               | firstChild # _ \<Rightarrow>
                   result1 @ fst (traverseFromNode m firstChild (setFromList result1)))))"

definition expandPath :: "string list \<Rightarrow> node_mapping \<Rightarrow> string list" where
  "expandPath path m = setFromList (expandLoop m path [])"

subsection \<open>\<^verbatim>\<open>reconstructMessagePath\<close>\<close>

definition reconstructMessagePath :: "conversation \<Rightarrow> string list option" where
  "reconstructMessagePath conv =
     (let m = mapping conv;
          nodeIds = map fst m
      in if length nodeIds = 0 then Some []
         else
           let rootNodes = findRootNodes m
           in (case rootNodes of
                 [] \<Rightarrow> Some []
               | firstRoot # _ \<Rightarrow>
                   (case current_node conv of
                      None \<Rightarrow> Some (fst (traverseFromNode m firstRoot []))
                    | Some cur \<Rightarrow>
                        if cur \<noteq> [] \<and> lookupNode m cur \<noteq> None then
                          (case getPathToRoot cur m of
                             None \<Rightarrow> None
                           | Some path \<Rightarrow> Some (expandPath path m))
                        else Some (fst (traverseFromNode m firstRoot [])))))"

section \<open>Filtering and re-linking\<close>

subsection \<open>\<^verbatim>\<open>findIncludedAncestor\<close>\<close>

text \<open>
  Again an unbounded \<^verbatim>\<open>while\<close> loop. The result is an identifier or \<^verbatim>\<open>null\<close>.
\<close>

partial_function (option) findIncludedAncestor ::
  "string option \<Rightarrow> string list \<Rightarrow> node_mapping \<Rightarrow> string option option" where
  "findIncludedAncestor currentId includedIds m =
     (case currentId of
        None \<Rightarrow> Some None
      | Some cur \<Rightarrow>
          if cur = [] then Some None
          else if cur \<in> set includedIds then Some (Some cur)
          else findIncludedAncestor
                 (orNull (case lookupNode m cur of None \<Rightarrow> None | Some nd \<Rightarrow> parent nd))
                 includedIds m)"

subsection \<open>The three loops of \<^verbatim>\<open>transformConversation\<close>\<close>

text \<open>
  The message objects are shared between the array \<^verbatim>\<open>messages\<close> and \<^verbatim>\<open>messageMap\<close>,
  and the second and third loop mutate them through \<^verbatim>\<open>messageMap\<close>. The array is the
  store: \<open>messageMap\<close> maps a node identifier to the position of its object.
\<close>

record filter_state =
  includedIds :: "string list"
  messageMap :: "string \<Rightarrow> nat option"
  messages :: "qmsg list"

definition filterStep :: "conversation \<Rightarrow> filter_state \<Rightarrow> string \<Rightarrow> filter_state" where
  "filterStep conv st nodeId =
     (case lookupNode (mapping conv) nodeId of
        None \<Rightarrow> st
      | Some nd \<Rightarrow>
          (case message nd of
             None \<Rightarrow> st
           | Some mg \<Rightarrow>
               let role = normalizeRole (author_role mg)
               in if role \<noteq> ''user'' \<and> role \<noteq> ''assistant'' then st
                  else
                    let text = extractContent (Some mg)
                    in if text = [] then st
                       else
                         let timestamp = sanitizeTimestamp (m_create_time mg);
                             qwenMessage = buildQwenMessage nd mg role text timestamp conv
                         in \<lparr>includedIds = setAdd nodeId (includedIds st),
                             messageMap = (messageMap st)(nodeId \<mapsto> length (messages st)),
                             messages = messages st @ [qwenMessage]\<rparr>))"

definition filterNodes :: "conversation \<Rightarrow> string list \<Rightarrow> filter_state" where
  "filterNodes conv orderedNodeIds =
     foldl (filterStep conv)
       \<lparr>includedIds = [], messageMap = Map.empty, messages = []\<rparr> orderedNodeIds"

text \<open>
  Second loop: \<^verbatim>\<open>current.parentId = findIncludedAncestor(node.parent, ...)\<close> and
  \<^verbatim>\<open>current.childrenIds = []\<close>. Reading \<^verbatim>\<open>node.parent\<close> of a missing node raises.
\<close>

fun wireParents ::
  "node_mapping \<Rightarrow> string list \<Rightarrow> (string \<Rightarrow> nat option) \<Rightarrow> string list \<Rightarrow> qmsg list
     \<Rightarrow> (error + qmsg list) option" where
  "wireParents m inc mmap [] store = Some (Inr store)"
| "wireParents m inc mmap (nodeId # rest) store =
     (case mmap nodeId of
        None \<Rightarrow> wireParents m inc mmap rest store
      | Some i \<Rightarrow>
          (case lookupNode m nodeId of
             None \<Rightarrow> Some (Inl TypeError)
           | Some nd \<Rightarrow>
               (case findIncludedAncestor (parent nd) inc m of
                  None \<Rightarrow> None
                | Some p \<Rightarrow>
                    wireParents m inc mmap rest
                      (store[i := (store ! i)\<lparr>q_parentId := p, q_childrenIds := []\<rparr>]))))"

text \<open>Third loop: \<^verbatim>\<open>parent.childrenIds.push(nodeId)\<close>.\<close>

definition wireChildStep ::
  "(string \<Rightarrow> nat option) \<Rightarrow> qmsg list \<Rightarrow> string \<Rightarrow> qmsg list" where
  "wireChildStep mmap store nodeId =
     (case mmap nodeId of
        None \<Rightarrow> store
      | Some i \<Rightarrow>
          (case q_parentId (store ! i) of
             None \<Rightarrow> store
           | Some parentId \<Rightarrow>
               if parentId = [] then store
               else
                 (case mmap parentId of
                    None \<Rightarrow> store
                  | Some j \<Rightarrow>
                      store[j := (store ! j)
                        \<lparr>q_childrenIds := q_childrenIds (store ! j) @ [nodeId]\<rparr>])))"

definition wireChildren ::
  "(string \<Rightarrow> nat option) \<Rightarrow> string list \<Rightarrow> qmsg list \<Rightarrow> qmsg list" where
  "wireChildren mmap ids store = foldl (wireChildStep mmap) store ids"

section \<open>Assembly\<close>

fun showNat :: "nat \<Rightarrow> string" where
  "showNat n =
     (if n < 10 then [char_of (48 + n)]
      else showNat (n div 10) @ [char_of (48 + n mod 10)])"

text \<open>
  \<^verbatim>\<open>historyMessages[message.id] = message\<close>: an absent id is the property name
  \<^verbatim>\<open>undefined\<close>.
\<close>

definition historyKey :: "string option \<Rightarrow> string" where
  "historyKey i = (case i of None \<Rightarrow> ''undefined'' | Some s \<Rightarrow> s)"

definition buildHistory :: "qmsg list \<Rightarrow> string \<Rightarrow> qmsg option" where
  "buildHistory msgs = foldl (\<lambda>h msg. h(historyKey (q_id msg) \<mapsto> msg)) Map.empty msgs"

definition assemble :: "conversation \<Rightarrow> nat \<Rightarrow> qmsg list \<Rightarrow> out_conversation" where
  "assemble conv index msgs =
     (let createdAt = sanitizeTimestamp (c_create_time conv);
          updatedAt = sanitizeTimestamp
            (if c_update_time conv \<noteq> JUndefined then c_update_time conv
             else c_create_time conv);
          lastAssistant = find (\<lambda>msg. q_role msg = ''assistant'') (rev msgs);
          lastMessage = (if msgs = [] then None else Some (last msgs));
          chosen = (case lastAssistant of Some a \<Rightarrow> Some a | None \<Rightarrow> lastMessage);
          currentId = orNull (case chosen of None \<Rightarrow> None | Some c \<Rightarrow> q_id c);
          currentResponseIds =
            (case currentId of
               Some i \<Rightarrow> if lastAssistant \<noteq> None then [i] else []
             | None \<Rightarrow> []);
          chatModels = collectModels msgs
      in \<lparr>o_id = (case orElse (conversation_id conv) (conv_id conv) of
                    Some i \<Rightarrow> if i \<noteq> [] then i else ''conversation-'' @ showNat index
                  | None \<Rightarrow> ''conversation-'' @ showNat index),
          o_title = (case title conv of
                       Some t \<Rightarrow> if t \<noteq> [] then t else ''Untitled Conversation''
                     | None \<Rightarrow> ''Untitled Conversation''),
          o_messages = msgs,
          o_history = buildHistory msgs,
          o_currentId = currentId,
          o_currentResponseIds = currentResponseIds,
          o_models = (if length chatModels > 0 then Some chatModels else None),
          o_updated_at = updatedAt,
          o_created_at = createdAt,
          o_meta = buildMeta createdAt\<rparr>)"

text \<open>
  \<^verbatim>\<open>transformConversation\<close>: \<open>None\<close> when a loop never ends, \<open>Some (Inl e)\<close> when
  \<open>e\<close> is raised, \<open>Some (Inr out)\<close> when \<open>out\<close> is returned.
\<close>

definition relink :: "conversation \<Rightarrow> string list \<Rightarrow> (error + qmsg list) option" where
  "relink conv orderedNodeIds =
     (let st = filterNodes conv orderedNodeIds
      in (case wireParents (mapping conv) (includedIds st) (messageMap st)
                 (includedIds st) (messages st) of
            None \<Rightarrow> None
          | Some (Inl e) \<Rightarrow> Some (Inl e)
          | Some (Inr store) \<Rightarrow>
              Some (Inr (wireChildren (messageMap st) (includedIds st) store))))"

definition transformConversation ::
  "conversation \<Rightarrow> nat \<Rightarrow> (error + out_conversation) option" where
  "transformConversation conv index =
     (case reconstructMessagePath conv of
        None \<Rightarrow> None
      | Some orderedNodeIds \<Rightarrow>
          (case relink conv orderedNodeIds of
             None \<Rightarrow> None
           | Some (Inl e) \<Rightarrow> Some (Inl e)
           | Some (Inr msgs) \<Rightarrow> Some (Inr (assemble conv index msgs))))"

declare traverseFromNode.simps [simp del]

declare showNat.simps [simp del]

section \<open>Specification-side notions\<close>

definition nonZeroNumber :: "jsnum \<Rightarrow> bool" where
  "nonZeroNumber x = (x \<noteq> NaN \<and> x \<noteq> Fin 0)"

definition emitted :: "jsval \<Rightarrow> string list" where
  "emitted part =
     (case part of
        JStr s \<Rightarrow> [s]
      | JObj ps \<Rightarrow>
          (case map_of ps ''text'' of
             Some (JStr t) \<Rightarrow> [t]
           | _ \<Rightarrow>
               (case map_of ps ''asset_pointer'' of
                  Some ap \<Rightarrow> if truthy ap then [''[Asset]''] else []
                | None \<Rightarrow> []))
      | _ \<Rightarrow> [])"

definition partsOf :: "message option \<Rightarrow> jsval list option" where
  "partsOf msg =
     (case msg of
        None \<Rightarrow> None
      | Some mg \<Rightarrow>
          (case content mg of
             JObj ps \<Rightarrow> (case map_of ps ''parts'' of Some (JArr parts) \<Rightarrow> Some parts | _ \<Rightarrow> None)
           | _ \<Rightarrow> None))"

definition extractContent_spec :: "message option \<Rightarrow> string" where
  "extractContent_spec msg =
     (case partsOf msg of
        None \<Rightarrow> []
      | Some parts \<Rightarrow> trim (join [CHR 0x0A] (concat (map emitted parts))))"

text \<open>
  A set of identifiers closed under the parent link: every member is a truthy
  identifier of a mapped node whose parent is again a member. A parent chain that
  enters such a set never leaves it.
\<close>

definition parentClosed :: "node_mapping \<Rightarrow> string set \<Rightarrow> bool" where
  "parentClosed m C =
     (\<forall>c\<in>C. c \<noteq> [] \<and> (\<exists>nd p. lookupNode m c = Some nd \<and> parent nd = Some p \<and> p \<in> C))"

text \<open>
  The parent link of a node as both parent walks read it
  (\<^verbatim>\<open>mapping[k] && mapping[k].parent\<close>, then \<^verbatim>\<open>|| null\<close>), and the relation it
  generates. The node mapping is acyclic under the parent links when \<open>parentRel\<close> is
  acyclic.
\<close>

definition parentOf :: "node_mapping \<Rightarrow> string \<Rightarrow> string option" where
  "parentOf m k = (case lookupNode m k of None \<Rightarrow> None | Some nd \<Rightarrow> orNull (parent nd))"

definition parentRel :: "node_mapping \<Rightarrow> (string \<times> string) set" where
  "parentRel m = {(k, p). parentOf m k = Some p}"

text \<open>
  A node qualifies (survives the filter) when it has a message payload, its role
  normalizes to \<^verbatim>\<open>user\<close> or \<^verbatim>\<open>assistant\<close>, and its extracted content is not empty.
\<close>

definition qualifies :: "conversation \<Rightarrow> string \<Rightarrow> bool" where
  "qualifies conv k =
     (case lookupNode (mapping conv) k of
        None \<Rightarrow> False
      | Some nd \<Rightarrow>
          (case message nd of
             None \<Rightarrow> False
           | Some mg \<Rightarrow>
               (normalizeRole (author_role mg) = ''user'' \<or>
                normalizeRole (author_role mg) = ''assistant'') \<and>
               extractContent (Some mg) \<noteq> []))"

text \<open>
  The nearest surviving ancestor of \<open>k\<close>, for a set \<open>S\<close> of surviving identifiers: a
  member of \<open>S\<close> reached from \<open>k\<close> by one or more parent links, with no member of
  \<open>S\<close> strictly between. When no proper ancestor is in \<open>S\<close> there is none.
\<close>

definition nearestSurvivor :: "node_mapping \<Rightarrow> string set \<Rightarrow> string \<Rightarrow> string \<Rightarrow> bool" where
  "nearestSurvivor m S k a =
     (a \<in> S \<and> (k, a) \<in> (parentRel m)\<^sup>+ \<and>
      (\<forall>b. (k, b) \<in> (parentRel m)\<^sup>+ \<and> (b, a) \<in> (parentRel m)\<^sup>+ \<longrightarrow> b \<notin> S))"

definition noSurvivorAbove :: "node_mapping \<Rightarrow> string set \<Rightarrow> string \<Rightarrow> bool" where
  "noSurvivorAbove m S k = (\<forall>b. (k, b) \<in> (parentRel m)\<^sup>+ \<longrightarrow> b \<notin> S)"

text \<open>
  The adjacency of the surviving nodes \<open>inc\<close> (in the order of the filtered
  sequence) as the output messages \<open>msgs\<close> carry it, message \<open>i\<close> belonging to node
  \<open>inc ! i\<close>: a \<^verbatim>\<open>null\<close> parent means that no proper ancestor survives; a parent
  \<open>a\<close> is another surviving node and the nearest surviving ancestor; the children are
  exactly the surviving nodes whose resolved parent is this node, in the order of
  \<open>inc\<close>.
\<close>

definition consistentAdjacency :: "node_mapping \<Rightarrow> string list \<Rightarrow> qmsg list \<Rightarrow> bool" where
  "consistentAdjacency m inc msgs =
     (length msgs = length inc \<and> distinct inc \<and>
      (\<forall>i<length inc.
         (q_parentId (msgs ! i) = None \<longrightarrow> noSurvivorAbove m (set inc) (inc ! i)) \<and>
         (\<forall>a. q_parentId (msgs ! i) = Some a \<longrightarrow>
            a \<in> set inc \<and> a \<noteq> inc ! i \<and> nearestSurvivor m (set inc) (inc ! i) a) \<and>
         q_childrenIds (msgs ! i) =
           filter (\<lambda>k. \<exists>j<length inc. inc ! j = k \<and> q_parentId (msgs ! j) = Some (inc ! i))
             inc))"

section \<open>Auxiliary lemmas\<close>

lemma floor_example: "\<lfloor>25 / 2 :: rat\<rfloor> = 12"
  by code_simp

lemmas parseFloat_eval =
  parseFloat_def parseUnsigned_def isWhiteSpace_def isDigit_def digitsVal_def
  exponentPart_def Let_def

lemmas path_eval =
  reconstructMessagePath_def findRootNodes_def lookupNode_def getPathToRoot_def
  getPathToRootLoop.simps expandPath_def setFromList_def setAdd_def traverseFromNode.simps
  orNull_def Let_def

lemmas relink_eval =
  relink_def filterNodes_def filterStep_def lookupNode_def findIncludedAncestor.simps
  wireChildren_def wireChildStep_def normalizeRole_def extractContent_def pushPart_def
  trim_def isWhiteSpace_def orElse_def orNull_def setAdd_def Let_def

lemmas assemble_eval =
  assemble_def orNull_def Let_def


lemma buildQwenMessage_fields:
  "q_id (buildQwenMessage nd mg role text ts conv) = orElse (msg_id mg) (node_id nd)"
  "q_role (buildQwenMessage nd mg role text ts conv) =
     (if role = ''assistant'' then ''assistant'' else ''user'')"
  "q_content (buildQwenMessage nd mg role text ts conv) =
     (if role = ''assistant'' then [] else text)"
  "q_content_list (buildQwenMessage nd mg role text ts conv) =
     (if role = ''assistant'' then [text] else [])"
  "q_parentId (buildQwenMessage nd mg role text ts conv) = None"
  "q_childrenIds (buildQwenMessage nd mg role text ts conv) = []"
  "q_timestamp (buildQwenMessage nd mg role text ts conv) = ts"
  by (simp_all add: buildQwenMessage_def Let_def)

lemma collectParts_emitted:
  "collectParts parts acc = acc @ concat (map emitted parts)"
proof (induction parts arbitrary: acc)
  case Nil
  then show ?case by simp
next
  case (Cons part rest)
  have "pushPart part acc = acc @ emitted part"
    by (cases part) (auto simp: pushPart_def emitted_def split: option.splits jsval.splits)
  then show ?case using Cons by simp
qed

lemma trim_asset: "trim ''[Asset]'' = ''[Asset]''"
  by (simp add: trim_def isWhiteSpace_def)

lemma find_skip: "\<forall>x\<in>set xs. \<not> P x \<Longrightarrow> find P (xs @ ys) = find P ys"
  by (induction xs) auto

lemma find_last_assistant:
  assumes "P a" and "\<forall>x\<in>set post. \<not> P x"
  shows "find P (rev (pre @ a # post)) = Some a"
proof -
  have "find P (rev post @ a # rev pre) = find P (a # rev pre)"
    using assms(2) by (intro find_skip) simp
  then show ?thesis using assms(1) by simp
qed

lemma find_no_assistant: "\<forall>x\<in>set xs. \<not> P x \<Longrightarrow> find P (rev xs) = None"
  by (simp add: find_None_iff)

lemma transform_messages:
  "transformConversation conv index = Some (Inr out) \<Longrightarrow>
     \<exists>ms. out = assemble conv index ms"
  by (auto simp: transformConversation_def split: option.splits sum.splits)

lemma assemble_messages: "o_messages (assemble conv index ms) = ms"
  by (simp add: assemble_def Let_def)

lemma assemble_current:
  "o_currentId (assemble conv index ms) =
     orNull (case (case find (\<lambda>msg. q_role msg = ''assistant'') (rev ms) of
                     Some a \<Rightarrow> Some a
                   | None \<Rightarrow> if ms = [] then None else Some (last ms)) of
               None \<Rightarrow> None | Some c \<Rightarrow> q_id c)"
  "o_currentResponseIds (assemble conv index ms) =
     (case o_currentId (assemble conv index ms) of
        Some i \<Rightarrow> if find (\<lambda>msg. q_role msg = ''assistant'') (rev ms) \<noteq> None then [i] else []
      | None \<Rightarrow> [])"
  by (simp_all add: assemble_def Let_def)

lemma empty_mapping_transform:
  "mapping conv = [] \<Longrightarrow> transformConversation conv index = Some (Inr (assemble conv index []))"
  by (simp add: transformConversation_def reconstructMessagePath_def
      relink_def filterNodes_def wireChildren_def)

lemma assemble_empty:
  "o_messages (assemble conv index []) = []"
  "o_currentId (assemble conv index []) = None"
  "o_currentResponseIds (assemble conv index []) = []"
  "o_models (assemble conv index []) = None"
  by (simp_all add: assemble_def Let_def orNull_def collectModels_def)


lemma buildQwenMessage_reset:
  "(buildQwenMessage nd mg role text ts conv)\<lparr>q_parentId := None, q_childrenIds := []\<rparr>
     = buildQwenMessage nd mg role text ts conv"
  by (simp add: buildQwenMessage_def Let_def)

lemma getPathToRootLoop_diverges:
  assumes "parentClosed m C" and "c \<in> C"
  shows "getPathToRootLoop m (Some c) path = None"
proof (rule ccontr)
  assume "getPathToRootLoop m (Some c) path \<noteq> None"
  then obtain y where y: "getPathToRootLoop m (Some c) path = Some y" by auto
  have "m = m \<longrightarrow> Some c \<notin> Some ` C"
  proof (rule getPathToRootLoop.raw_induct
      [where P = "\<lambda>m' cur path' y'. m' = m \<longrightarrow> cur \<notin> Some ` C", OF _ y])
    fix loop m' cur path' y'
    assume ih: "\<And>m' cur path' y'. loop m' cur path' = Some y' \<Longrightarrow> m' = m \<longrightarrow> cur \<notin> Some ` C"
      and st: "(case cur of
                  None \<Rightarrow> Some path'
                | Some cu \<Rightarrow>
                    if cu = [] then Some path'
                    else case lookupNode m' cu of
                           None \<Rightarrow> Some path'
                         | Some nd \<Rightarrow> loop m' (orNull (parent nd)) (cu # path')) = Some y'"
    show "m' = m \<longrightarrow> cur \<notin> Some ` C"
    proof (intro impI notI)
      assume mm: "m' = m" and "cur \<in> Some ` C"
      then obtain k where k: "cur = Some k" "k \<in> C" by auto
      then obtain nd p where nd: "k \<noteq> []" "lookupNode m k = Some nd" "parent nd = Some p" "p \<in> C"
        using assms(1) unfolding parentClosed_def by blast
      have "p \<noteq> []" using assms(1) nd(4) unfolding parentClosed_def by blast
      then have "loop m (Some p) (k # path') = Some y'"
        using st k nd mm by (simp add: orNull_def)
      from ih[OF this] show False using nd(4) by auto
    qed
  qed
  then show False using assms(2) by blast
qed

lemma findIncludedAncestor_diverges:
  assumes "parentClosed m C" and "c \<in> C" and "C \<inter> set inc = {}"
  shows "findIncludedAncestor (Some c) inc m = None"
proof (rule ccontr)
  assume "findIncludedAncestor (Some c) inc m \<noteq> None"
  then obtain y where y: "findIncludedAncestor (Some c) inc m = Some y" by auto
  have "inc = inc \<and> m = m \<longrightarrow> Some c \<notin> Some ` C"
  proof (rule findIncludedAncestor.raw_induct
      [where P = "\<lambda>cur inc' m' y'. inc' = inc \<and> m' = m \<longrightarrow> cur \<notin> Some ` C", OF _ y])
    fix loop cur inc' m' y'
    assume ih: "\<And>cur inc' m' y'. loop cur inc' m' = Some y' \<Longrightarrow>
                  inc' = inc \<and> m' = m \<longrightarrow> cur \<notin> Some ` C"
      and st: "(case cur of
                  None \<Rightarrow> Some None
                | Some cu \<Rightarrow>
                    if cu = [] then Some None
                    else if cu \<in> set inc' then Some (Some cu)
                    else loop (orNull (case lookupNode m' cu of
                                         None \<Rightarrow> None
                                       | Some nd \<Rightarrow> parent nd)) inc' m') = Some y'"
    show "inc' = inc \<and> m' = m \<longrightarrow> cur \<notin> Some ` C"
    proof (intro impI notI)
      assume mm: "inc' = inc \<and> m' = m" and "cur \<in> Some ` C"
      then obtain k where k: "cur = Some k" "k \<in> C" by auto
      then obtain nd p where nd: "k \<noteq> []" "lookupNode m k = Some nd" "parent nd = Some p" "p \<in> C"
        using assms(1) unfolding parentClosed_def by blast
      have "p \<noteq> []" using assms(1) nd(4) unfolding parentClosed_def by blast
      moreover have "k \<notin> set inc" using k assms(3) by auto
      ultimately have "loop (Some p) inc m = Some y'"
        using st k nd mm by (simp add: orNull_def)
      from ih[OF this] show False using nd(4) by auto
    qed
  qed
  then show False using assms(2) by blast
qed

lemma finite_parentRel: "finite (parentRel m)"
proof -
  have "parentRel m \<subseteq> (\<lambda>k. (k, the (parentOf m k))) ` mapped m"
    by (auto simp: parentRel_def parentOf_def mapped_def image_iff split: option.splits)
  then show ?thesis using finite_mapped finite_surj by blast
qed

lemma wf_parentRel: "acyclic (parentRel m) \<Longrightarrow> wf ((parentRel m)\<inverse>)"
  by (simp add: finite_parentRel finite_acyclic_wf_converse)

lemma parentOf_nonempty: "parentOf m k = Some p \<Longrightarrow> p \<noteq> []"
  by (auto simp: parentOf_def orNull_def split: option.splits if_splits)

lemma getPathToRootLoop_terminates:
  assumes "wf ((parentRel m)\<inverse>)"
  shows "\<exists>res. getPathToRootLoop m cur path = Some res"
proof (cases cur)
  case None
  then show ?thesis by (simp add: getPathToRootLoop.simps)
next
  case (Some c)
  have "\<forall>path. \<exists>res. getPathToRootLoop m (Some c) path = Some res"
    using assms
  proof (induction c rule: wf_induct_rule)
    case (less c)
    show ?case
    proof
      fix path
      show "\<exists>res. getPathToRootLoop m (Some c) path = Some res"
      proof (cases "c = [] \<or> lookupNode m c = None")
        case True
        then show ?thesis by (auto simp: getPathToRootLoop.simps)
      next
        case False
        then obtain nd where nd: "c \<noteq> []" "lookupNode m c = Some nd" by auto
        show ?thesis
        proof (cases "orNull (parent nd)")
          case None
          then show ?thesis using nd
            by (simp add: getPathToRootLoop.simps[of m "Some c"] getPathToRootLoop.simps[of m None])
        next
          case (Some p)
          then have "(p, c) \<in> (parentRel m)\<inverse>"
            using nd by (simp add: parentRel_def parentOf_def)
          from less[OF this] obtain res where
            "getPathToRootLoop m (Some p) (c # path) = Some res" by blast
          then show ?thesis using nd Some
            by (simp add: getPathToRootLoop.simps[of m "Some c"])
        qed
      qed
    qed
  qed
  then show ?thesis using Some by blast
qed

lemma setAdd_distinct: "distinct s \<Longrightarrow> distinct (setAdd x s)"
  by (simp add: setAdd_def)

lemma foldl_setAdd_distinct: "distinct s \<Longrightarrow> distinct (foldl (\<lambda>s x. setAdd x s) s xs)"
  by (induction xs arbitrary: s) (simp_all add: setAdd_distinct)

lemma setFromList_distinct: "distinct (setFromList xs)"
  by (simp add: setFromList_def foldl_setAdd_distinct)

lemma traverse_distinct:
  "distinct (fst (traverseFromNode m n v)) \<and>
   set (fst (traverseFromNode m n v)) \<inter> set v = {} \<and>
   set v \<subseteq> set (snd (traverseFromNode m n v))"
  "distinct (fst (traverseChildren m cs v)) \<and>
   set (fst (traverseChildren m cs v)) \<inter> set v = {} \<and>
   set v \<subseteq> set (snd (traverseChildren m cs v))"
proof (induction m n v and m cs v rule: traverseFromNode_traverseChildren.induct)
  case (1 m nodeId visited)
  show ?case
  proof (cases "nodeId = [] \<or> nodeId \<in> set visited")
    case True
    then show ?thesis by (simp add: traverseFromNode.simps)
  next
    case False
    show ?thesis
    proof (cases "lookupNode m nodeId")
      case None
      then show ?thesis using False by (auto simp: traverseFromNode.simps setAdd_def)
    next
      case (Some nd)
      obtain p v2 where pv: "traverseChildren m (children nd) (setAdd nodeId visited) = (p, v2)"
        by force
      have ih: "distinct p \<and> set p \<inter> set (setAdd nodeId visited) = {} \<and>
                set (setAdd nodeId visited) \<subseteq> set v2"
        using 1[OF False refl Some] pv by simp
      have sa: "set (setAdd nodeId visited) = insert nodeId (set visited)"
        using False by (auto simp: setAdd_def)
      have r: "traverseFromNode m nodeId visited = (nodeId # p, v2)"
        using False Some pv by (simp add: traverseFromNode.simps)
      show ?thesis using ih sa False unfolding r by auto
    qed
  qed
next
  case (2 m visited)
  then show ?case by simp
next
  case (3 m childId rest visited)
  obtain p v1 where pv: "traverseFromNode m childId visited = (p, v1)" by force
  have ih1: "distinct p \<and> set p \<inter> set visited = {} \<and> set visited \<subseteq> set v1"
    using 3(1) pv by simp
  show ?case
  proof (cases "p \<noteq> []")
    case True
    then show ?thesis using pv ih1 by simp
  next
    case False
    have ih2: "distinct (fst (traverseChildren m rest v1)) \<and>
               set (fst (traverseChildren m rest v1)) \<inter> set v1 = {} \<and>
               set v1 \<subseteq> set (snd (traverseChildren m rest v1))"
      using 3(2)[OF pv[symmetric]] False by simp
    have r: "traverseChildren m (childId # rest) visited = traverseChildren m rest v1"
      using pv False by simp
    show ?thesis unfolding r using ih1 ih2 by auto
  qed
qed

lemma reconstruct_distinct:
  assumes "reconstructMessagePath conv = Some ord"
  shows "distinct ord"
proof -
  have t: "distinct (fst (traverseFromNode m n []))" for m n
    using traverse_distinct(1)[of m n "[]"] by simp
  show ?thesis
    using assms
    by (auto simp: reconstructMessagePath_def Let_def expandPath_def setFromList_distinct t
        split: list.splits option.splits if_splits)
qed

lemma reconstruct_terminates:
  assumes "wf ((parentRel (mapping conv))\<inverse>)"
  shows "\<exists>ord. reconstructMessagePath conv = Some ord"
proof (rule ccontr)
  assume "\<nexists>ord. reconstructMessagePath conv = Some ord"
  then have "reconstructMessagePath conv = None" by simp
  then obtain c where "getPathToRoot c (mapping conv) = None"
    by (auto simp: reconstructMessagePath_def Let_def split: list.splits option.splits if_splits)
  then show False
    unfolding getPathToRoot_def
    using getPathToRootLoop_terminates[OF assms, of "Some c" "[]"] by auto
qed

lemma filterStep_skip: "\<not> qualifies conv x \<Longrightarrow> filterStep conv st x = st"
  by (auto simp: filterStep_def qualifies_def Let_def split: option.splits)

lemma filterStep_keep:
  "qualifies conv x \<Longrightarrow>
     \<exists>q. filterStep conv st x =
       \<lparr>includedIds = setAdd x (includedIds st),
        messageMap = (messageMap st)(x \<mapsto> length (messages st)),
        messages = messages st @ [q]\<rparr>"
  by (auto simp: filterStep_def qualifies_def Let_def split: option.splits)

lemma qualifies_mapped: "qualifies conv k \<Longrightarrow> lookupNode (mapping conv) k \<noteq> None"
  by (auto simp: qualifies_def split: option.splits)

lemma filterNodes_snoc:
  "filterNodes conv (xs @ [x]) = filterStep conv (filterNodes conv xs) x"
  by (simp add: filterNodes_def)

lemma filterNodes_inv:
  assumes "distinct ord"
  shows "includedIds (filterNodes conv ord) = filter (qualifies conv) ord \<and>
         length (messages (filterNodes conv ord)) = length (filter (qualifies conv) ord) \<and>
         (\<forall>i<length (filter (qualifies conv) ord).
            messageMap (filterNodes conv ord) (filter (qualifies conv) ord ! i) = Some i)"
  using assms
proof (induction ord rule: rev_induct)
  case Nil
  then show ?case by (simp add: filterNodes_def)
next
  case (snoc x xs)
  let ?st = "filterNodes conv xs"
  let ?inc = "filter (qualifies conv) xs"
  have ih: "includedIds ?st = ?inc" "length (messages ?st) = length ?inc"
    "\<forall>i<length ?inc. messageMap ?st (?inc ! i) = Some i"
    using snoc by simp_all
  have xn: "x \<notin> set ?inc" using snoc.prems by simp
  show ?case
  proof (cases "qualifies conv x")
    case False
    then show ?thesis using ih by (simp add: filterNodes_snoc filterStep_skip)
  next
    case True
    from filterStep_keep[OF True, of ?st] obtain q where
      q: "filterStep conv ?st x =
           \<lparr>includedIds = setAdd x (includedIds ?st),
            messageMap = (messageMap ?st)(x \<mapsto> length (messages ?st)),
            messages = messages ?st @ [q]\<rparr>" by blast
    have f: "filter (qualifies conv) (xs @ [x]) = ?inc @ [x]" using True by simp
    have a: "setAdd x ?inc = ?inc @ [x]" using xn by (simp add: setAdd_def)
    have "messageMap (filterNodes conv (xs @ [x])) ((?inc @ [x]) ! i) = Some i"
      if "i < length (?inc @ [x])" for i
    proof (cases "i < length ?inc")
      case True
      then have "?inc ! i \<noteq> x" using xn by (metis nth_mem)
      then show ?thesis using True ih(3)
        by (simp add: filterNodes_snoc q nth_append)
    next
      case False
      then have "i = length ?inc" using that by simp
      then show ?thesis using ih(2) by (simp add: filterNodes_snoc q)
    qed
    then show ?thesis
      unfolding f using ih a by (simp add: filterNodes_snoc q)
  qed
qed

lemma orNull_parent:
  "orNull (case lookupNode m c of None \<Rightarrow> None | Some nd \<Rightarrow> parent nd) = parentOf m c"
  by (simp add: parentOf_def orNull_def split: option.splits)

lemma parentRel_step: "(c, p) \<in> parentRel m \<longleftrightarrow> parentOf m c = Some p"
  by (simp add: parentRel_def)

lemma parent_chain_cases:
  assumes "(c, b) \<in> (parentRel m)\<^sup>*"
  shows "b = c \<or> (\<exists>c'. parentOf m c = Some c' \<and> (c', b) \<in> (parentRel m)\<^sup>*)"
  using assms by (auto elim: converse_rtranclE simp: parentRel_step)

lemma parent_chain_proper:
  assumes "(k, b) \<in> (parentRel m)\<^sup>+"
  shows "\<exists>c'. parentOf m k = Some c' \<and> (c', b) \<in> (parentRel m)\<^sup>*"
  using assms by (auto dest: tranclD simp: parentRel_step)

lemma findIncludedAncestor_walk:
  assumes ac: "acyclic (parentRel m)" and "c \<noteq> []"
  shows "\<exists>p. findIncludedAncestor (Some c) inc m = Some p \<and>
           (p = None \<longrightarrow> (\<forall>b. (c, b) \<in> (parentRel m)\<^sup>* \<longrightarrow> b \<notin> set inc)) \<and>
           (\<forall>a. p = Some a \<longrightarrow>
              a \<noteq> [] \<and> a \<in> set inc \<and> (c, a) \<in> (parentRel m)\<^sup>* \<and>
              (\<forall>b. (c, b) \<in> (parentRel m)\<^sup>* \<and> (b, a) \<in> (parentRel m)\<^sup>+ \<longrightarrow> b \<notin> set inc))"
  using wf_parentRel[OF ac] assms(2)
proof (induction c rule: wf_induct_rule)
  case (less c)
  show ?case
  proof (cases "c \<in> set inc")
    case True
    have "b \<notin> set inc" if "(c, b) \<in> (parentRel m)\<^sup>*" "(b, c) \<in> (parentRel m)\<^sup>+" for b
    proof -
      from that have "(c, c) \<in> (parentRel m)\<^sup>+" by (rule rtrancl_trancl_trancl)
      then show ?thesis using ac by (simp add: acyclic_def)
    qed
    then show ?thesis using True less.prems
      by (auto simp: findIncludedAncestor.simps[of "Some c"])
  next
    case False
    have step: "findIncludedAncestor (Some c) inc m = findIncludedAncestor (parentOf m c) inc m"
      using False less.prems
      by (simp add: findIncludedAncestor.simps[of "Some c"] orNull_parent)
    show ?thesis
    proof (cases "parentOf m c")
      case None
      have "b = c" if "(c, b) \<in> (parentRel m)\<^sup>*" for b
        using parent_chain_cases[OF that] None by simp
      then show ?thesis using False None step
        by (auto simp: findIncludedAncestor.simps[of None])
    next
      case (Some c')
      have c': "c' \<noteq> []" using Some by (rule parentOf_nonempty)
      have "(c', c) \<in> (parentRel m)\<inverse>" using Some by (simp add: parentRel_step)
      from less.IH[OF this c'] obtain p where
        p: "findIncludedAncestor (Some c') inc m = Some p"
        and pn: "p = None \<longrightarrow> (\<forall>b. (c', b) \<in> (parentRel m)\<^sup>* \<longrightarrow> b \<notin> set inc)"
        and ps: "\<forall>a. p = Some a \<longrightarrow>
              a \<noteq> [] \<and> a \<in> set inc \<and> (c', a) \<in> (parentRel m)\<^sup>* \<and>
              (\<forall>b. (c', b) \<in> (parentRel m)\<^sup>* \<and> (b, a) \<in> (parentRel m)\<^sup>+ \<longrightarrow> b \<notin> set inc)"
        by blast
      have split: "b = c \<or> (c', b) \<in> (parentRel m)\<^sup>*" if "(c, b) \<in> (parentRel m)\<^sup>*" for b
        using parent_chain_cases[OF that] Some by auto
      have up: "(c, a) \<in> (parentRel m)\<^sup>*" if "(c', a) \<in> (parentRel m)\<^sup>*" for a
        using that Some by (meson converse_rtrancl_into_rtrancl parentRel_step)
      have r: "findIncludedAncestor (Some c) inc m = Some p"
        using step Some p by simp
      show ?thesis
      proof (intro exI[of _ p] conjI r impI allI)
        fix b assume "p = None" "(c, b) \<in> (parentRel m)\<^sup>*"
        then show "b \<notin> set inc" using split[of b] pn False by auto
      next
        fix a assume a: "p = Some a"
        show "a \<noteq> []" using a ps by blast
        show "a \<in> set inc" using a ps by blast
        show "(c, a) \<in> (parentRel m)\<^sup>*" using a ps up by blast
        fix b assume "(c, b) \<in> (parentRel m)\<^sup>* \<and> (b, a) \<in> (parentRel m)\<^sup>+"
        then show "b \<notin> set inc" using split[of b] a ps False by auto
      qed
    qed
  qed
qed

lemma resolve_parent:
  assumes ac: "acyclic (parentRel m)" and nd: "lookupNode m k = Some nd"
  shows "\<exists>p. findIncludedAncestor (parent nd) inc m = Some p \<and>
           (p = None \<longrightarrow> noSurvivorAbove m (set inc) k) \<and>
           (\<forall>a. p = Some a \<longrightarrow>
              a \<noteq> [] \<and> a \<in> set inc \<and> a \<noteq> k \<and> nearestSurvivor m (set inc) k a)"
proof (cases "parentOf m k")
  case None
  then have "parent nd = None \<or> parent nd = Some []"
    using nd by (cases "parent nd") (auto simp: parentOf_def orNull_def split: if_splits)
  then have "findIncludedAncestor (parent nd) inc m = Some None"
    by (auto simp: findIncludedAncestor.simps)
  moreover have "noSurvivorAbove m (set inc) k"
    unfolding noSurvivorAbove_def using parent_chain_proper[of k _ m] None by auto
  ultimately show ?thesis by simp
next
  case (Some c')
  then have pc: "parent nd = Some c'" and c': "c' \<noteq> []"
    using nd by (cases "parent nd"; auto simp: parentOf_def orNull_def split: if_splits)+
  from findIncludedAncestor_walk[OF ac c', of inc] obtain p where
    p: "findIncludedAncestor (Some c') inc m = Some p"
    and pn: "p = None \<longrightarrow> (\<forall>b. (c', b) \<in> (parentRel m)\<^sup>* \<longrightarrow> b \<notin> set inc)"
    and ps: "\<forall>a. p = Some a \<longrightarrow>
          a \<noteq> [] \<and> a \<in> set inc \<and> (c', a) \<in> (parentRel m)\<^sup>* \<and>
          (\<forall>b. (c', b) \<in> (parentRel m)\<^sup>* \<and> (b, a) \<in> (parentRel m)\<^sup>+ \<longrightarrow> b \<notin> set inc)"
    by blast
  have above: "(c', b) \<in> (parentRel m)\<^sup>*" if "(k, b) \<in> (parentRel m)\<^sup>+" for b
    using parent_chain_proper[OF that] Some by simp
  have kc: "(k, c') \<in> parentRel m" using Some by (simp add: parentRel_step)
  show ?thesis
  proof (intro exI[of _ p] conjI impI allI)
    show "findIncludedAncestor (parent nd) inc m = Some p" using p pc by simp
  next
    assume "p = None"
    then show "noSurvivorAbove m (set inc) k"
      unfolding noSurvivorAbove_def using pn above by blast
  next
    fix a assume a: "p = Some a"
    show "a \<noteq> []" using a ps by blast
    show "a \<in> set inc" using a ps by blast
    have "(c', a) \<in> (parentRel m)\<^sup>*" using a ps by blast
    with kc have ka: "(k, a) \<in> (parentRel m)\<^sup>+" by (rule rtrancl_into_trancl2)
    show "a \<noteq> k" using ka ac by (auto simp: acyclic_def)
    show "nearestSurvivor m (set inc) k a"
      unfolding nearestSurvivor_def using a ps ka above by blast
  qed
qed

lemma wireParents_result:
  assumes "\<forall>k\<in>set ids. \<exists>nd. lookupNode m k = Some nd \<and>
             findIncludedAncestor (parent nd) inc m = Some (rp k)"
    and "\<forall>k\<in>set ids. \<exists>i<length store. mmap k = Some i"
    and "distinct ids" and "inj_on mmap (set ids)"
  shows "\<exists>store'. wireParents m inc mmap ids store = Some (Inr store') \<and>
           length store' = length store \<and>
           (\<forall>k\<in>set ids. \<forall>i. mmap k = Some i \<longrightarrow>
              q_parentId (store' ! i) = rp k \<and> q_childrenIds (store' ! i) = []) \<and>
           (\<forall>j<length store. (\<forall>k\<in>set ids. mmap k \<noteq> Some j) \<longrightarrow> store' ! j = store ! j)"
  using assms
proof (induction ids arbitrary: store)
  case Nil
  then show ?case by simp
next
  case (Cons k rest)
  obtain nd where nd: "lookupNode m k = Some nd"
    "findIncludedAncestor (parent nd) inc m = Some (rp k)"
    using Cons.prems(1) by auto
  obtain i where i: "i < length store" "mmap k = Some i"
    using Cons.prems(2) by auto
  let ?store1 = "store[i := (store ! i)\<lparr>q_parentId := rp k, q_childrenIds := []\<rparr>]"
  have step: "wireParents m inc mmap (k # rest) store = wireParents m inc mmap rest ?store1"
    using nd i by simp
  have p1: "\<forall>k\<in>set rest. \<exists>nd. lookupNode m k = Some nd \<and>
             findIncludedAncestor (parent nd) inc m = Some (rp k)"
    using Cons.prems(1) by simp
  have p2: "\<forall>k\<in>set rest. \<exists>i<length ?store1. mmap k = Some i"
    using Cons.prems(2) by simp
  have p3: "distinct rest" using Cons.prems(3) by simp
  have p4: "inj_on mmap (set rest)" using Cons.prems(4) by (simp add: inj_on_def)
  from Cons.IH[OF p1 p2 p3 p4] obtain store' where
    r: "wireParents m inc mmap rest ?store1 = Some (Inr store')"
    and l: "length store' = length ?store1"
    and a: "\<forall>k\<in>set rest. \<forall>i. mmap k = Some i \<longrightarrow>
              q_parentId (store' ! i) = rp k \<and> q_childrenIds (store' ! i) = []"
    and b: "\<forall>j<length ?store1. (\<forall>k\<in>set rest. mmap k \<noteq> Some j) \<longrightarrow> store' ! j = ?store1 ! j"
    by blast
  have ni: "\<forall>k'\<in>set rest. mmap k' \<noteq> Some i"
  proof
    fix k' assume k': "k' \<in> set rest"
    then have "k' \<noteq> k" using Cons.prems(3) by auto
    then show "mmap k' \<noteq> Some i"
      using Cons.prems(4) k' i(2) by (auto simp: inj_on_def)
  qed
  have si: "store' ! i = (store ! i)\<lparr>q_parentId := rp k, q_childrenIds := []\<rparr>"
    using b i(1) ni by simp
  show ?case
  proof (intro exI[of _ store'] conjI ballI allI impI)
    show "wireParents m inc mmap (k # rest) store = Some (Inr store')" using step r by simp
    show "length store' = length store" using l by simp
  next
    fix k' j assume "k' \<in> set (k # rest)" "mmap k' = Some j"
    then show "q_parentId (store' ! j) = rp k'"
      using a si i(2) by auto
  next
    fix k' j assume "k' \<in> set (k # rest)" "mmap k' = Some j"
    then show "q_childrenIds (store' ! j) = []"
      using a si i(2) by auto
  next
    fix j assume j: "j < length store" "\<forall>k'\<in>set (k # rest). mmap k' \<noteq> Some j"
    then have "j \<noteq> i" using i(2) by auto
    then show "store' ! j = store ! j" using b j by simp
  qed
qed

lemma wireChildStep_result:
  assumes "i < length store" "mmap k = Some i" "q_parentId (store ! i) = rp k"
    and "\<forall>a. rp k = Some a \<longrightarrow> a \<noteq> [] \<and> (\<exists>j<length store. mmap a = Some j)"
  shows "length (wireChildStep mmap store k) = length store \<and>
         (\<forall>j<length store.
            q_parentId (wireChildStep mmap store k ! j) = q_parentId (store ! j) \<and>
            q_childrenIds (wireChildStep mmap store k ! j) =
              q_childrenIds (store ! j) @
                (if \<exists>a. rp k = Some a \<and> mmap a = Some j then [k] else []))"
proof (cases "rp k")
  case None
  then show ?thesis using assms by (simp add: wireChildStep_def)
next
  case (Some a)
  then obtain j0 where j0: "a \<noteq> []" "j0 < length store" "mmap a = Some j0"
    using assms(4) by auto
  have w: "wireChildStep mmap store k =
             store[j0 := (store ! j0)\<lparr>q_childrenIds := q_childrenIds (store ! j0) @ [k]\<rparr>]"
    using assms(1,2,3) Some j0 by (simp add: wireChildStep_def)
  show ?thesis
    unfolding w using Some j0 by (auto simp: nth_list_update)
qed

lemma wireChildren_result:
  assumes "\<forall>k\<in>set ids. \<exists>i<length store. mmap k = Some i \<and> q_parentId (store ! i) = rp k"
    and "\<forall>k\<in>set ids. \<forall>a. rp k = Some a \<longrightarrow> a \<noteq> [] \<and> (\<exists>j<length store. mmap a = Some j)"
  shows "length (wireChildren mmap ids store) = length store \<and>
         (\<forall>j<length store.
            q_parentId (wireChildren mmap ids store ! j) = q_parentId (store ! j) \<and>
            q_childrenIds (wireChildren mmap ids store ! j) =
              q_childrenIds (store ! j) @
                filter (\<lambda>k. \<exists>a. rp k = Some a \<and> mmap a = Some j) ids)"
  using assms
proof (induction ids arbitrary: store)
  case Nil
  then show ?case by (simp add: wireChildren_def)
next
  case (Cons k rest)
  obtain i where i: "i < length store" "mmap k = Some i" "q_parentId (store ! i) = rp k"
    using Cons.prems(1) by auto
  have a4: "\<forall>a. rp k = Some a \<longrightarrow> a \<noteq> [] \<and> (\<exists>j<length store. mmap a = Some j)"
    using Cons.prems(2) by simp
  let ?s1 = "wireChildStep mmap store k"
  note s1 = wireChildStep_result[where rp = rp and k = k and i = i and store = store
      and mmap = mmap, OF i a4]
  have l1: "length ?s1 = length store" using s1 by simp
  have p1: "\<forall>k\<in>set rest. \<exists>i<length ?s1. mmap k = Some i \<and> q_parentId (?s1 ! i) = rp k"
  proof
    fix k' assume "k' \<in> set rest"
    then obtain i' where "i' < length store" "mmap k' = Some i'" "q_parentId (store ! i') = rp k'"
      using Cons.prems(1) by auto
    then show "\<exists>i<length ?s1. mmap k' = Some i \<and> q_parentId (?s1 ! i) = rp k'"
      using s1 l1 by auto
  qed
  have p2: "\<forall>k\<in>set rest. \<forall>a. rp k = Some a \<longrightarrow> a \<noteq> [] \<and> (\<exists>j<length ?s1. mmap a = Some j)"
    using Cons.prems(2) l1 by simp
  have w: "wireChildren mmap (k # rest) store = wireChildren mmap rest ?s1"
    by (simp add: wireChildren_def)
  from Cons.IH[OF p1 p2] show ?case
    unfolding w using s1 l1 by auto
qed

section \<open>The claims\<close>

subsection \<open>C6: role normalization\<close>

text \<open>
  C6 states that every role string other than \<^verbatim>\<open>user\<close> and \<^verbatim>\<open>assistant\<close> normalizes
  to \<^verbatim>\<open>assistant\<close>. The role \<^verbatim>\<open>system\<close> does not.
\<close>

theorem normalizeRole_system_counterexample:
  "''system'' \<noteq> ''user'' \<and> ''system'' \<noteq> ''assistant'' \<and>
   normalizeRole (Some ''system'') \<noteq> ''assistant''"
  by (simp add: normalizeRole_def)

text \<open>
  C6, amended: a role string that is non-empty and neither \<^verbatim>\<open>user\<close> nor
  \<^verbatim>\<open>assistant\<close> is returned unchanged by role normalization, and the filter of
  \<^verbatim>\<open>transformConversation\<close> then skips the message; only a missing or empty role
  normalizes to \<^verbatim>\<open>assistant\<close>.
\<close>

theorem normalizeRole_unrecognized:
  "(r \<noteq> [] \<and> r \<noteq> ''user'' \<and> r \<noteq> ''assistant'' \<longrightarrow>
      normalizeRole (Some r) = r \<and>
      (\<forall>conv st k nd mg.
         lookupNode (mapping conv) k = Some nd \<and> message nd = Some mg \<and>
         author_role mg = Some r
           \<longrightarrow> filterStep conv st k = st)) \<and>
   normalizeRole (Some []) = ''assistant'' \<and>
   normalizeRole None = ''assistant''"
  by (auto simp: normalizeRole_def filterStep_def)

definition systemMessage :: message where
  "systemMessage =
     \<lparr>msg_id = Some ''c'', author_role = Some ''system'',
      content = JObj [(''parts'', JArr [JStr ''ignored''])],
      m_create_time = JNull, model_slug = None\<rparr>"

definition systemNode :: node where
  "systemNode =
     \<lparr>node_id = Some ''c'', parent = None, children = [], message = Some systemMessage\<rparr>"

definition systemConversation :: conversation where
  "systemConversation =
     \<lparr>conversation_id = None, conv_id = None, title = None,
      c_create_time = JNull, c_update_time = JUndefined, current_node = None,
      default_model_slug = None, mapping = [(''c'', Some systemNode)]\<rparr>"

theorem normalizeRole_unrecognized_witness:
  "normalizeRole (Some ''system'') = ''system'' \<and>
   filterStep systemConversation
       \<lparr>includedIds = [], messageMap = Map.empty, messages = []\<rparr> ''c''
     = \<lparr>includedIds = [], messageMap = Map.empty, messages = []\<rparr>"
proof -
  have l: "lookupNode (mapping systemConversation) ''c'' = Some systemNode"
    by (simp add: systemConversation_def lookupNode_def)
  have n: "message systemNode = Some systemMessage"
    by (simp add: systemNode_def)
  have a: "author_role systemMessage = Some ''system''"
    by (simp add: systemMessage_def)
  show ?thesis
    using normalizeRole_unrecognized[of "''system''"] l n a by simp
qed

subsection \<open>C8: timestamp normalization\<close>

text \<open>
  C8 states that a non-finite number normalizes to \<^verbatim>\<open>null\<close>. The guard of the source is
  \<^verbatim>\<open>!Number.isNaN(value)\<close>, so \<^verbatim>\<open>Infinity\<close> passes and is returned.
\<close>

theorem sanitizeTimestamp_infinity_counterexample:
  "sanitizeTimestamp (JNum PosInf) = Some PosInf \<and> sanitizeTimestamp (JNum PosInf) \<noteq> None"
  by (simp add: sanitizeTimestamp_def)

text \<open>
  C8, amended: the timestamp normalizer returns the integer floor of a finite number;
  it returns an infinite number unchanged and \<^verbatim>\<open>null\<close> for NaN; for a string it returns
  the floor of what \<^verbatim>\<open>parseFloat\<close> reads from it (an infinity unchanged), and \<^verbatim>\<open>null\<close>
  when \<^verbatim>\<open>parseFloat\<close> gives NaN; it returns \<^verbatim>\<open>null\<close> for \<^verbatim>\<open>undefined\<close>, \<^verbatim>\<open>null\<close>,
  booleans, arrays and objects. It never returns NaN, and it has no failing branch.
\<close>

theorem sanitizeTimestamp_cases:
  "sanitizeTimestamp (JNum (Fin r)) = Some (Fin (of_int \<lfloor>r\<rfloor>)) \<and>
   sanitizeTimestamp (JNum PosInf) = Some PosInf \<and>
   sanitizeTimestamp (JNum NegInf) = Some NegInf \<and>
   sanitizeTimestamp (JNum NaN) = None \<and>
   (parseFloat s = Fin q \<longrightarrow> sanitizeTimestamp (JStr s) = Some (Fin (of_int \<lfloor>q\<rfloor>))) \<and>
   (parseFloat s = PosInf \<longrightarrow> sanitizeTimestamp (JStr s) = Some PosInf) \<and>
   (parseFloat s = NegInf \<longrightarrow> sanitizeTimestamp (JStr s) = Some NegInf) \<and>
   (parseFloat s = NaN \<longrightarrow> sanitizeTimestamp (JStr s) = None) \<and>
   sanitizeTimestamp JUndefined = None \<and>
   sanitizeTimestamp JNull = None \<and>
   sanitizeTimestamp (JBool b) = None \<and>
   sanitizeTimestamp (JArr xs) = None \<and>
   sanitizeTimestamp (JObj ps) = None \<and>
   sanitizeTimestamp v \<noteq> Some NaN"
proof -
  have "jsfloor n \<noteq> NaN" if "n \<noteq> NaN" for n using that by (cases n) auto
  then have "sanitizeTimestamp v \<noteq> Some NaN"
    by (auto simp: sanitizeTimestamp_def Let_def split: jsval.splits)
  then show ?thesis by (simp add: sanitizeTimestamp_def)
qed

theorem sanitizeTimestamp_cases_witness:
  "parseFloat ''12.5abc'' = Fin (25 / 2) \<and>
   sanitizeTimestamp (JStr ''12.5abc'') = Some (Fin 12) \<and>
   parseFloat ''Infinity'' = PosInf \<and>
   sanitizeTimestamp (JStr ''Infinity'') = Some PosInf \<and>
   parseFloat ''-Infinity'' = NegInf \<and>
   sanitizeTimestamp (JStr ''-Infinity'') = Some NegInf \<and>
   parseFloat ''soon'' = NaN \<and>
   sanitizeTimestamp (JStr ''soon'') = None"
proof -
  have p1: "parseFloat ''12.5abc'' = Fin (25 / 2)" by (simp add: parseFloat_eval)
  have p2: "parseFloat ''Infinity'' = PosInf" by (simp add: parseFloat_eval)
  have p3: "parseFloat ''-Infinity'' = NegInf" by (simp add: parseFloat_eval)
  have p4: "parseFloat ''soon'' = NaN" by (simp add: parseFloat_eval)
  show ?thesis
    using sanitizeTimestamp_cases[of 0 "''12.5abc''" "25 / 2" False "[]" "[]" JNull]
      sanitizeTimestamp_cases[of 0 "''Infinity''" 0 False "[]" "[]" JNull]
      sanitizeTimestamp_cases[of 0 "''-Infinity''" 0 False "[]" "[]" JNull]
      sanitizeTimestamp_cases[of 0 "''soon''" 0 False "[]" "[]" JNull]
      p1 p2 p3 p4 floor_example
    by simp
qed

subsection \<open>C5: the five-node scenario\<close>

text \<open>
  The mapping of the scenario: root \<open>r\<close> without a message, then \<open>a\<close> (user,
  \<^verbatim>\<open>hi\<close>), \<open>b\<close> (assistant, \<^verbatim>\<open>hello\<close>), \<open>c\<close> (system, \<^verbatim>\<open>ignored\<close>), \<open>d\<close>
  (assistant, \<^verbatim>\<open>bye\<close>), each the only child of the one before. Mapping key, node id
  and message id agree.
\<close>

definition textMessage :: "string \<Rightarrow> string \<Rightarrow> string \<Rightarrow> message" where
  "textMessage i r t = \<lparr>msg_id = Some i, author_role = Some r,
     content = JObj [(''parts'', JArr [JStr t])], m_create_time = JUndefined, model_slug = None\<rparr>"

definition scenarioMapping :: node_mapping where
  "scenarioMapping = [
       (''r'', Some \<lparr>node_id = Some ''r'', parent = None, children = [''a''], message = None\<rparr>),
       (''a'', Some \<lparr>node_id = Some ''a'', parent = Some ''r'', children = [''b''], message = Some (textMessage ''a'' ''user'' ''hi'')\<rparr>),
       (''b'', Some \<lparr>node_id = Some ''b'', parent = Some ''a'', children = [''c''], message = Some (textMessage ''b'' ''assistant'' ''hello'')\<rparr>),
       (''c'', Some \<lparr>node_id = Some ''c'', parent = Some ''b'', children = [''d''], message = Some (textMessage ''c'' ''system'' ''ignored'')\<rparr>),
       (''d'', Some \<lparr>node_id = Some ''d'', parent = Some ''c'', children = [], message = Some (textMessage ''d'' ''assistant'' ''bye'')\<rparr>)]"

definition scenario :: "conversation" where
  "scenario = \<lparr>conversation_id = None, conv_id = None, title = None,
     c_create_time = JUndefined, c_update_time = JUndefined, current_node = Some ''d'',
     default_model_slug = None, mapping = scenarioMapping\<rparr>"


text \<open>
  C5: for every conversation with this mapping and \<^verbatim>\<open>current_node = d\<close>, the
  conversion returns, the output messages are \<open>a\<close>, \<open>b\<close>, \<open>d\<close> in this order,
  the resolved parent of \<open>d\<close> is \<open>b\<close>, \<^verbatim>\<open>currentId\<close> is the id of \<open>d\<close> and
  \<^verbatim>\<open>currentResponseIds\<close> is the list of that one id.
\<close>

theorem scenario_output:
  assumes "mapping conv = scenarioMapping" and "current_node conv = Some ''d''"
  shows "\<exists>out. transformConversation conv index = Some (Inr out) \<and>
           map q_id (o_messages out) = [Some ''a'', Some ''b'', Some ''d''] \<and>
           map q_role (o_messages out) = [''user'', ''assistant'', ''assistant''] \<and>
           map q_content (o_messages out) = [''hi'', [], []] \<and>
           map q_content_list (o_messages out) = [[], [''hello''], [''bye'']] \<and>
           map q_parentId (o_messages out) = [None, Some ''a'', Some ''b''] \<and>
           map q_childrenIds (o_messages out) = [[''b''], [''d''], []] \<and>
           o_currentId out = Some ''d'' \<and>
           o_currentResponseIds out = [''d'']"
proof -
  have p: "reconstructMessagePath conv = Some [''r'', ''a'', ''b'', ''c'', ''d'']"
    using assms by (simp add: scenarioMapping_def path_eval)
  have "\<exists>ms. relink conv [''r'', ''a'', ''b'', ''c'', ''d''] = Some (Inr ms) \<and>
     map q_id ms = [Some ''a'', Some ''b'', Some ''d''] \<and>
     map q_role ms = [''user'', ''assistant'', ''assistant''] \<and>
     map q_content ms = [''hi'', [], []] \<and>
     map q_content_list ms = [[], [''hello''], [''bye'']] \<and>
     map q_parentId ms = [None, Some ''a'', Some ''b''] \<and>
     map q_childrenIds ms = [[''b''], [''d''], []]"
    using assms
    by (simp add: scenarioMapping_def textMessage_def relink_eval buildQwenMessage_fields)
  then obtain ms where all:
    "relink conv [''r'', ''a'', ''b'', ''c'', ''d''] = Some (Inr ms) \<and>
     map q_id ms = [Some ''a'', Some ''b'', Some ''d''] \<and>
     map q_role ms = [''user'', ''assistant'', ''assistant''] \<and>
     map q_content ms = [''hi'', [], []] \<and>
     map q_content_list ms = [[], [''hello''], [''bye'']] \<and>
     map q_parentId ms = [None, Some ''a'', Some ''b''] \<and>
     map q_childrenIds ms = [[''b''], [''d''], []]" ..
  note r = all[THEN conjunct1]
  note i = all[THEN conjunct2, THEN conjunct1]
  note ro = all[THEN conjunct2, THEN conjunct2, THEN conjunct1]
  obtain x y z where ms: "ms = [x, y, z]"
    using i by (auto simp: map_eq_Cons_conv)
  have "o_currentId (assemble conv index ms) = Some ''d''"
    "o_currentResponseIds (assemble conv index ms) = [''d'']"
    "o_messages (assemble conv index ms) = ms"
    using i ro by (simp_all add: ms assemble_eval)
  then show ?thesis
    using p all by (simp add: transformConversation_def)
qed


theorem scenario_output_witness:
  "mapping scenario = scenarioMapping \<and> current_node scenario = Some ''d'' \<and>
   (\<exists>out. transformConversation scenario 0 = Some (Inr out) \<and>
           map q_id (o_messages out) = [Some ''a'', Some ''b'', Some ''d''] \<and>
           map q_parentId (o_messages out) = [None, Some ''a'', Some ''b''] \<and>
           o_currentId out = Some ''d'' \<and>
           o_currentResponseIds out = [''d''])"
proof -
  have m: "mapping scenario = scenarioMapping" by (simp add: scenario_def)
  have c: "current_node scenario = Some ''d''" by (simp add: scenario_def)
  show ?thesis using scenario_output[OF m c, of 0] m c by auto
qed



subsection \<open>C10: the meta field\<close>

text \<open>
  C10: the \<^verbatim>\<open>meta\<close> field of every returned record has \<^verbatim>\<open>tags = []\<close>; it has a
  \<^verbatim>\<open>timestamp\<close>, equal to the normalized create timestamp times 1000, exactly when
  that product is a non-zero number, and no \<^verbatim>\<open>timestamp\<close> when the normalized create
  timestamp is \<^verbatim>\<open>null\<close> or 0.
\<close>

theorem meta_of_conversation:
  assumes "transformConversation conv index = Some (Inr out)"
  shows "tags (o_meta out) = [] \<and>
     (sanitizeTimestamp (c_create_time conv) = None \<longrightarrow> meta_timestamp (o_meta out) = None) \<and>
     (\<forall>n. sanitizeTimestamp (c_create_time conv) = Some n \<longrightarrow>
        meta_timestamp (o_meta out) =
          (if nonZeroNumber (jsmul1000 n) then Some (jsmul1000 n) else None)) \<and>
     (sanitizeTimestamp (c_create_time conv) = Some (Fin 0) \<longrightarrow> meta_timestamp (o_meta out) = None)"
proof -
  have t: "truthyNum x = nonZeroNumber x" for x
    by (cases x) (auto simp: nonZeroNumber_def)
  have n: "sanitizeTimestamp v \<noteq> Some NaN" for v
  proof -
    have "jsfloor k \<noteq> NaN" if "k \<noteq> NaN" for k using that by (cases k) auto
    then show ?thesis by (auto simp: sanitizeTimestamp_def Let_def split: jsval.splits)
  qed
  have m: "o_meta out = buildMeta (sanitizeTimestamp (c_create_time conv))"
    using assms
    by (auto simp: transformConversation_def assemble_def Let_def split: option.splits sum.splits)
  show ?thesis
    using n[of "c_create_time conv"]
    by (cases "sanitizeTimestamp (c_create_time conv)")
       (auto simp: m buildMeta_def t nonZeroNumber_def)
qed


definition datedConversation :: "jsval \<Rightarrow> conversation" where
  "datedConversation created =
     \<lparr>conversation_id = None, conv_id = None, title = None,
      c_create_time = created, c_update_time = JUndefined, current_node = None,
      default_model_slug = None, mapping = []\<rparr>"

lemma dated_transform:
  "transformConversation (datedConversation v) 0
     = Some (Inr (assemble (datedConversation v) 0 []))"
  by (simp add: transformConversation_def reconstructMessagePath_def datedConversation_def
      relink_def filterNodes_def wireChildren_def)

theorem meta_of_conversation_witness:
  "transformConversation (datedConversation (JNum (Fin 5))) 0
     = Some (Inr (assemble (datedConversation (JNum (Fin 5))) 0 [])) \<and>
   sanitizeTimestamp (c_create_time (datedConversation (JNum (Fin 5)))) = Some (Fin 5) \<and>
   tags (o_meta (assemble (datedConversation (JNum (Fin 5))) 0 [])) = [] \<and>
   meta_timestamp (o_meta (assemble (datedConversation (JNum (Fin 5))) 0 [])) = Some (Fin 5000) \<and>
   sanitizeTimestamp (c_create_time (datedConversation (JNum (Fin (1 / 2))))) = Some (Fin 0) \<and>
   meta_timestamp (o_meta (assemble (datedConversation (JNum (Fin (1 / 2)))) 0 [])) = None \<and>
   sanitizeTimestamp (c_create_time (datedConversation JNull)) = None \<and>
   meta_timestamp (o_meta (assemble (datedConversation JNull) 0 [])) = None"
proof -
  have f: "\<lfloor>1 / 2 :: rat\<rfloor> = 0" by code_simp
  have s1: "sanitizeTimestamp (c_create_time (datedConversation (JNum (Fin 5)))) = Some (Fin 5)"
    by (simp add: datedConversation_def sanitizeTimestamp_def)
  have s2: "sanitizeTimestamp (c_create_time (datedConversation (JNum (Fin (1 / 2))))) = Some (Fin 0)"
    using f by (simp add: datedConversation_def sanitizeTimestamp_def)
  have s3: "sanitizeTimestamp (c_create_time (datedConversation JNull)) = None"
    by (simp add: datedConversation_def sanitizeTimestamp_def)
  show ?thesis
    using meta_of_conversation[OF dated_transform[of "JNum (Fin 5)"]]
      meta_of_conversation[OF dated_transform[of "JNum (Fin (1 / 2))"]]
      meta_of_conversation[OF dated_transform[of JNull]]
      s1 s2 s3 dated_transform[of "JNum (Fin 5)"]
    by (simp add: nonZeroNumber_def)
qed

subsection \<open>C9: content extraction\<close>

text \<open>
  C9: content extraction returns the empty string when the message payload or its list
  of content parts is missing (\<open>partsOf\<close>); otherwise it joins with newlines, and then
  trims, what the parts emit (\<open>emitted\<close>): a plain string itself, a structured part
  with a string \<^verbatim>\<open>text\<close> that text, a structured part without one but with a truthy
  \<^verbatim>\<open>asset_pointer\<close> the placeholder \<^verbatim>\<open>[Asset]\<close>, any other part nothing. An assistant
  message whose only part is an asset pointer extracts to \<^verbatim>\<open>[Asset]\<close> and passes the
  filter.
\<close>

theorem extractContent_refines_spec:
  "extractContent msg = extractContent_spec msg \<and>
   (partsOf msg = None \<longrightarrow> extractContent msg = []) \<and>
   (lookupNode (mapping conv) k = Some nd \<and> message nd = Some mg \<and>
      author_role mg = Some ''assistant'' \<and>
      content mg = JObj [(''parts'', JArr [JObj [(''asset_pointer'', ap)]])] \<and> truthy ap
      \<longrightarrow> extractContent (Some mg) = ''[Asset]'' \<and>
          includedIds (filterStep conv st k) = setAdd k (includedIds st) \<and>
          messages (filterStep conv st k) =
            messages st @ [buildQwenMessage nd mg ''assistant'' ''[Asset]''
                             (sanitizeTimestamp (m_create_time mg)) conv])"
proof -
  have e: "extractContent m = extractContent_spec m" for m
    by (auto simp: extractContent_def extractContent_spec_def partsOf_def collectParts_emitted
        split: option.splits jsval.splits)
  have n: "partsOf msg = None \<longrightarrow> extractContent msg = []"
    by (simp add: e extractContent_spec_def)
  have a: "extractContent (Some mg) = ''[Asset]''"
    if "content mg = JObj [(''parts'', JArr [JObj [(''asset_pointer'', ap)]])]" "truthy ap"
    for mg ap
    using that by (simp add: e extractContent_spec_def partsOf_def emitted_def trim_asset)
  show ?thesis
    using e[of msg] n a
    by (auto simp: filterStep_def normalizeRole_def Let_def)
qed



definition assetMessage :: message where
  "assetMessage =
     \<lparr>msg_id = Some ''n'', author_role = Some ''assistant'',
      content = JObj [(''parts'', JArr [JObj [(''asset_pointer'', JStr ''x'')]])],
      m_create_time = JNull, model_slug = None\<rparr>"

definition assetNode :: node where
  "assetNode =
     \<lparr>node_id = Some ''n'', parent = None, children = [], message = Some assetMessage\<rparr>"

definition assetConversation :: conversation where
  "assetConversation =
     \<lparr>conversation_id = None, conv_id = None, title = None,
      c_create_time = JNull, c_update_time = JUndefined, current_node = None,
      default_model_slug = None, mapping = [(''n'', Some assetNode)]\<rparr>"

definition emptyState :: filter_state where
  "emptyState = \<lparr>includedIds = [], messageMap = Map.empty, messages = []\<rparr>"

theorem extractContent_refines_spec_witness:
  "partsOf None = None \<and> extractContent None = [] \<and>
   lookupNode (mapping assetConversation) ''n'' = Some assetNode \<and>
   message assetNode = Some assetMessage \<and>
   author_role assetMessage = Some ''assistant'' \<and>
   content assetMessage = JObj [(''parts'', JArr [JObj [(''asset_pointer'', JStr ''x'')]])] \<and>
   truthy (JStr ''x'') \<and>
   extractContent (Some assetMessage) = ''[Asset]'' \<and>
   includedIds (filterStep assetConversation emptyState ''n'') = [''n''] \<and>
   map q_content_list (messages (filterStep assetConversation emptyState ''n'')) = [[''[Asset]'']]"
proof -
  note T = extractContent_refines_spec[of None assetConversation "''n''" assetNode
      assetMessage "JStr ''x''" emptyState]
  have p: "partsOf None = None" by (simp add: partsOf_def)
  have l: "lookupNode (mapping assetConversation) ''n'' = Some assetNode"
    by (simp add: assetConversation_def lookupNode_def)
  have m: "message assetNode = Some assetMessage" by (simp add: assetNode_def)
  have r: "author_role assetMessage = Some ''assistant''" by (simp add: assetMessage_def)
  have c: "content assetMessage = JObj [(''parts'', JArr [JObj [(''asset_pointer'', JStr ''x'')]])]"
    by (simp add: assetMessage_def)
  have t: "truthy (JStr ''x'')" by simp
  have a: "extractContent None = []"
    by (rule T[THEN conjunct2, THEN conjunct1, rule_format, OF p])
  have b: "extractContent (Some assetMessage) = ''[Asset]'' \<and>
          includedIds (filterStep assetConversation emptyState ''n'')
            = setAdd ''n'' (includedIds emptyState) \<and>
          messages (filterStep assetConversation emptyState ''n'') =
            messages emptyState @ [buildQwenMessage assetNode assetMessage ''assistant''
               ''[Asset]'' (sanitizeTimestamp (m_create_time assetMessage)) assetConversation]"
    using T[THEN conjunct2, THEN conjunct2] l m r c t by simp
  show ?thesis
    using p l m r c t a b
    by (simp add: buildQwenMessage_fields emptyState_def setAdd_def)
qed

subsection \<open>C7: current message and current responses\<close>

text \<open>
  A conversation of one node \<open>k\<close> that carries a message with the text \<^verbatim>\<open>hello\<close>, of a
  given role and message id, and no node id.
\<close>

definition singleMessage :: "string \<Rightarrow> string option \<Rightarrow> message" where
  "singleMessage role mid =
     \<lparr>msg_id = mid, author_role = Some role,
      content = JObj [(''parts'', JArr [JStr ''hello''])],
      m_create_time = JUndefined, model_slug = None\<rparr>"

definition singleNode :: "string \<Rightarrow> string option \<Rightarrow> node" where
  "singleNode role mid =
     \<lparr>node_id = None, parent = None, children = [],
      message = Some (singleMessage role mid)\<rparr>"

definition singleConversation :: "string \<Rightarrow> string option \<Rightarrow> conversation" where
  "singleConversation role mid =
     \<lparr>conversation_id = None, conv_id = None, title = None,
      c_create_time = JUndefined, c_update_time = JUndefined, current_node = None,
      default_model_slug = None, mapping = [(''k'', Some (singleNode role mid))]\<rparr>"

definition emptyConversation :: conversation where
  "emptyConversation =
     \<lparr>conversation_id = None, conv_id = None, title = None,
      c_create_time = JUndefined, c_update_time = JUndefined, current_node = None,
      default_model_slug = None, mapping = []\<rparr>"

definition singleOutput :: "string \<Rightarrow> string option \<Rightarrow> qmsg" where
  "singleOutput role mid =
     buildQwenMessage (singleNode role mid) (singleMessage role mid) role ''hello'' None
       (singleConversation role mid)"

definition singleResult :: "string \<Rightarrow> string option \<Rightarrow> out_conversation" where
  "singleResult role mid = assemble (singleConversation role mid) 0 [singleOutput role mid]"

lemma single_transform:
  assumes "role = ''user'' \<or> role = ''assistant''"
  shows "transformConversation (singleConversation role mid) 0
           = Some (Inr (singleResult role mid))"
proof -
  have p: "reconstructMessagePath (singleConversation role mid) = Some [''k'']"
    by (simp add: singleConversation_def singleNode_def path_eval)
  have r: "relink (singleConversation role mid) [''k''] = Some (Inr [singleOutput role mid])"
    using assms
    by (auto simp: singleConversation_def singleNode_def singleMessage_def singleOutput_def
        relink_eval sanitizeTimestamp_def buildQwenMessage_fields buildQwenMessage_reset)
  show ?thesis by (simp add: transformConversation_def p r singleResult_def)
qed

lemma single_fields:
  "o_messages (singleResult role mid) = [singleOutput role mid]"
  "q_role (singleOutput ''assistant'' mid) = ''assistant''"
  "q_role (singleOutput ''user'' mid) = ''user''"
  "q_id (singleOutput role None) = None"
  "q_id (singleOutput role (Some ''k'')) = Some ''k''"
  by (simp_all add: singleResult_def singleOutput_def assemble_messages buildQwenMessage_fields
      singleMessage_def singleNode_def orElse_def)


text \<open>
  C7 states that \<^verbatim>\<open>currentResponseIds\<close> is the singleton of \<^verbatim>\<open>currentId\<close> exactly
  when the chosen current message is an assistant message. An assistant message that
  has neither a message id nor a node id is chosen, and yet \<^verbatim>\<open>currentId\<close> is
  \<^verbatim>\<open>null\<close> and \<^verbatim>\<open>currentResponseIds\<close> is empty.
\<close>

theorem unidentified_assistant_counterexample:
  "transformConversation (singleConversation ''assistant'' None) 0
     = Some (Inr (singleResult ''assistant'' None)) \<and>
   o_messages (singleResult ''assistant'' None) = [singleOutput ''assistant'' None] \<and>
   q_role (singleOutput ''assistant'' None) = ''assistant'' \<and>
   o_currentId (singleResult ''assistant'' None) = None \<and>
   o_currentResponseIds (singleResult ''assistant'' None) = []"
  by (simp add: single_transform single_fields)
     (simp add: singleResult_def assemble_current single_fields orNull_def)


text \<open>
  C7, amended: when the conversion returns, \<^verbatim>\<open>currentId\<close> is the id of the last
  assistant message of the message list if there is one, else the id of the last
  message, else \<^verbatim>\<open>null\<close>, where a missing or empty id counts as \<^verbatim>\<open>null\<close>;
  \<^verbatim>\<open>currentResponseIds\<close> is the singleton of \<^verbatim>\<open>currentId\<close> exactly when there is
  a last assistant message and its id is present and not empty, and is empty
  otherwise. A conversation with an empty node mapping returns with an empty message
  list, \<^verbatim>\<open>currentId = null\<close>, empty \<^verbatim>\<open>currentResponseIds\<close> and \<^verbatim>\<open>models = null\<close>.
\<close>

theorem current_pointers:
  "(mapping conv = [] \<longrightarrow>
      (\<exists>out0. transformConversation conv index = Some (Inr out0) \<and>
         o_messages out0 = [] \<and> o_currentId out0 = None \<and>
         o_currentResponseIds out0 = [] \<and> o_models out0 = None)) \<and>
   (transformConversation conv index = Some (Inr out) \<longrightarrow>
      (o_messages out = pre @ a # post \<and> q_role a = ''assistant'' \<and>
       (\<forall>x\<in>set post. q_role x \<noteq> ''assistant'') \<longrightarrow>
         o_currentId out = orNull (q_id a) \<and>
         o_currentResponseIds out = (case orNull (q_id a) of Some i \<Rightarrow> [i] | None \<Rightarrow> [])) \<and>
      (o_messages out \<noteq> [] \<and> (\<forall>x\<in>set (o_messages out). q_role x \<noteq> ''assistant'') \<longrightarrow>
         o_currentId out = orNull (q_id (last (o_messages out))) \<and>
         o_currentResponseIds out = []) \<and>
      (o_messages out = [] \<longrightarrow> o_currentId out = None \<and> o_currentResponseIds out = []))"
proof (intro conjI impI)
  assume "mapping conv = []"
  then show "\<exists>out0. transformConversation conv index = Some (Inr out0) \<and>
         o_messages out0 = [] \<and> o_currentId out0 = None \<and>
         o_currentResponseIds out0 = [] \<and> o_models out0 = None"
    by (simp add: empty_mapping_transform assemble_empty)
next
  assume t: "transformConversation conv index = Some (Inr out)"
    and h: "o_messages out = pre @ a # post \<and> q_role a = ''assistant'' \<and>
       (\<forall>x\<in>set post. q_role x \<noteq> ''assistant'')"
  from t obtain ms where o: "out = assemble conv index ms" using transform_messages by blast
  have ms: "ms = pre @ a # post" using h o by (simp add: assemble_messages)
  have f: "find (\<lambda>msg. q_role msg = ''assistant'') (rev ms) = Some a"
    unfolding ms using h by (intro find_last_assistant) auto
  show "o_currentId out = orNull (q_id a)"
    by (simp add: o assemble_current f)
  show "o_currentResponseIds out = (case orNull (q_id a) of Some i \<Rightarrow> [i] | None \<Rightarrow> [])"
    by (simp add: o assemble_current f split: option.splits)
next
  assume t: "transformConversation conv index = Some (Inr out)"
    and h: "o_messages out \<noteq> [] \<and> (\<forall>x\<in>set (o_messages out). q_role x \<noteq> ''assistant'')"
  from t obtain ms where o: "out = assemble conv index ms" using transform_messages by blast
  have ms: "ms \<noteq> []" "\<forall>x\<in>set ms. q_role x \<noteq> ''assistant''"
    using h o by (simp_all add: assemble_messages)
  have f: "find (\<lambda>msg. q_role msg = ''assistant'') (rev ms) = None"
    using ms(2) by (intro find_no_assistant) auto
  show "o_currentId out = orNull (q_id (last (o_messages out)))"
    using ms(1) by (simp add: o assemble_current f assemble_messages)
  show "o_currentResponseIds out = []"
    by (simp add: o assemble_current f split: option.splits)
next
  assume t: "transformConversation conv index = Some (Inr out)"
    and h: "o_messages out = []"
  from t obtain ms where o: "out = assemble conv index ms" using transform_messages by blast
  have ms: "ms = []" using h o by (simp add: assemble_messages)
  show "o_currentId out = None" by (simp add: o ms assemble_empty)
  show "o_currentResponseIds out = []" by (simp add: o ms assemble_empty)
qed



theorem current_pointers_witness:
  "transformConversation (singleConversation ''assistant'' (Some ''k'')) 0
     = Some (Inr (singleResult ''assistant'' (Some ''k''))) \<and>
   o_messages (singleResult ''assistant'' (Some ''k''))
     = [] @ singleOutput ''assistant'' (Some ''k'') # [] \<and>
   q_role (singleOutput ''assistant'' (Some ''k'')) = ''assistant'' \<and>
   o_currentId (singleResult ''assistant'' (Some ''k'')) = Some ''k'' \<and>
   o_currentResponseIds (singleResult ''assistant'' (Some ''k'')) = [''k''] \<and>
   transformConversation (singleConversation ''user'' (Some ''k'')) 0
     = Some (Inr (singleResult ''user'' (Some ''k''))) \<and>
   o_messages (singleResult ''user'' (Some ''k'')) \<noteq> [] \<and>
   map q_role (o_messages (singleResult ''user'' (Some ''k''))) = [''user''] \<and>
   o_currentId (singleResult ''user'' (Some ''k'')) = Some ''k'' \<and>
   o_currentResponseIds (singleResult ''user'' (Some ''k'')) = [] \<and>
   mapping (emptyConversation) = [] \<and>
   (\<exists>out0. transformConversation (emptyConversation) 0 = Some (Inr out0) \<and>
      o_messages out0 = [] \<and> o_currentId out0 = None \<and>
      o_currentResponseIds out0 = [] \<and> o_models out0 = None)"
proof -
  note A = current_pointers[of "singleConversation ''assistant'' (Some ''k'')" 0
      "singleResult ''assistant'' (Some ''k'')" "[]" "singleOutput ''assistant'' (Some ''k'')" "[]"]
  note U = current_pointers[of "singleConversation ''user'' (Some ''k'')" 0
      "singleResult ''user'' (Some ''k'')" "[]" "singleOutput ''user'' (Some ''k'')" "[]"]
  note E = current_pointers[of "emptyConversation" 0]
  have ta: "transformConversation (singleConversation ''assistant'' (Some ''k'')) 0
     = Some (Inr (singleResult ''assistant'' (Some ''k'')))"
    by (simp add: single_transform)
  have tu: "transformConversation (singleConversation ''user'' (Some ''k'')) 0
     = Some (Inr (singleResult ''user'' (Some ''k'')))"
    by (simp add: single_transform)
  have me: "mapping (emptyConversation) = []" by (simp add: emptyConversation_def)
  show ?thesis
    using A[THEN conjunct2, rule_format, OF ta, THEN conjunct1]
      U[THEN conjunct2, rule_format, OF tu, THEN conjunct2, THEN conjunct1]
      E[THEN conjunct1, rule_format, OF me] ta tu me
    by (simp add: single_fields orNull_def)
qed

subsection \<open>C1: termination on cyclic parent links\<close>

text \<open>
  Two inputs. In the first, \<open>a\<close> and \<open>b\<close> are each other's parent and
  \<^verbatim>\<open>current_node\<close> is \<open>a\<close>; the root \<open>r\<close> makes \<^verbatim>\<open>findRootNodes\<close> non-empty. In the
  second there is no \<^verbatim>\<open>current_node\<close>; the user message \<open>x\<close> is a child of the root
  and names \<open>a\<close> as its parent.
\<close>

definition bareNode :: "string \<Rightarrow> string option \<Rightarrow> string list \<Rightarrow> node" where
  "bareNode i p cs = \<lparr>node_id = Some i, parent = p, children = cs, message = None\<rparr>"

definition plainConversation :: "string option \<Rightarrow> node_mapping \<Rightarrow> conversation" where
  "plainConversation cur m =
     \<lparr>conversation_id = None, conv_id = None, title = None,
      c_create_time = JUndefined, c_update_time = JUndefined, current_node = cur,
      default_model_slug = None, mapping = m\<rparr>"

definition cyclicMapping :: node_mapping where
  "cyclicMapping =
     [(''r'', Some (bareNode ''r'' None [])),
      (''a'', Some (bareNode ''a'' (Some ''b'') [])),
      (''b'', Some (bareNode ''b'' (Some ''a'') []))]"

definition strayMapping :: node_mapping where
  "strayMapping =
     [(''r'', Some (bareNode ''r'' None [''x''])),
      (''x'', Some \<lparr>node_id = Some ''x'', parent = Some ''a'', children = [],
                    message = Some (textMessage ''x'' ''user'' ''hi'')\<rparr>),
      (''a'', Some (bareNode ''a'' (Some ''b'') [])),
      (''b'', Some (bareNode ''b'' (Some ''a'') []))]"

lemma cyclic_closed: "parentClosed cyclicMapping {''a'', ''b''}"
  by (simp add: parentClosed_def cyclicMapping_def bareNode_def lookupNode_def)

lemma stray_closed: "parentClosed strayMapping {''a'', ''b''}"
  by (simp add: parentClosed_def strayMapping_def bareNode_def lookupNode_def)


text \<open>
  C1 says that the conversion terminates for every conversation, cyclic parent links
  included. On the first input the loop of \<^verbatim>\<open>getPathToRoot\<close> never ends, on the
  second the loop of \<^verbatim>\<open>findIncludedAncestor\<close>: \<^verbatim>\<open>transformConversation\<close> does not
  return.
\<close>

theorem cyclic_parents_never_return:
  "transformConversation (plainConversation (Some ''a'') cyclicMapping) 0 = None \<and>
   transformConversation (plainConversation None strayMapping) 0 = None"
proof
  have "getPathToRoot ''a'' cyclicMapping = None"
    unfolding getPathToRoot_def
    by (rule getPathToRootLoop_diverges[OF cyclic_closed]) simp
  moreover have "findRootNodes cyclicMapping = [''r'']"
    by (simp add: findRootNodes_def cyclicMapping_def bareNode_def lookupNode_def)
  moreover have "lookupNode cyclicMapping ''a'' \<noteq> None"
    by (simp add: cyclicMapping_def lookupNode_def)
  moreover have "map fst cyclicMapping \<noteq> []" by (simp add: cyclicMapping_def)
  ultimately have "reconstructMessagePath (plainConversation (Some ''a'') cyclicMapping) = None"
    by (simp add: reconstructMessagePath_def plainConversation_def)
  then show "transformConversation (plainConversation (Some ''a'') cyclicMapping) 0 = None"
    by (simp add: transformConversation_def)
next
  have p: "reconstructMessagePath (plainConversation None strayMapping) = Some [''r'', ''x'']"
    by (simp add: plainConversation_def strayMapping_def bareNode_def path_eval)
  have f: "includedIds (filterNodes (plainConversation None strayMapping) [''r'', ''x'']) = [''x'']"
    "messageMap (filterNodes (plainConversation None strayMapping) [''r'', ''x'']) ''x'' = Some 0"
    by (simp_all add: plainConversation_def strayMapping_def bareNode_def textMessage_def
        filterNodes_def filterStep_def lookupNode_def normalizeRole_def extractContent_def
        pushPart_def trim_def isWhiteSpace_def setAdd_def Let_def)
  have l: "lookupNode strayMapping ''x''
             = Some \<lparr>node_id = Some ''x'', parent = Some ''a'', children = [],
                     message = Some (textMessage ''x'' ''user'' ''hi'')\<rparr>"
    by (simp add: strayMapping_def lookupNode_def)
  have d: "findIncludedAncestor (Some ''a'') [''x''] strayMapping = None"
    by (rule findIncludedAncestor_diverges[OF stray_closed]) simp_all
  have "relink (plainConversation None strayMapping) [''r'', ''x''] = None"
    using f l d by (simp add: relink_def Let_def plainConversation_def)
  then show "transformConversation (plainConversation None strayMapping) 0 = None"
    using p by (simp add: transformConversation_def)
qed


subsection \<open>C3: identifiers of the links\<close>

text \<open>
  Two nodes with the mapping keys \<open>k1\<close> and \<open>k2\<close>, whose messages have the ids
  \<open>m1\<close> and \<open>m2\<close>.
\<close>

definition renamedMapping :: node_mapping where
  "renamedMapping =
     [(''k1'', Some \<lparr>node_id = Some ''k1'', parent = None, children = [''k2''],
                     message = Some (textMessage ''m1'' ''user'' ''hi'')\<rparr>),
      (''k2'', Some \<lparr>node_id = Some ''k2'', parent = Some ''k1'', children = [],
                     message = Some (textMessage ''m2'' ''assistant'' ''hello'')\<rparr>)]"


text \<open>
  C3 says that \<^verbatim>\<open>parentId\<close> and every entry of \<^verbatim>\<open>childrenIds\<close> is the \<^verbatim>\<open>id\<close> of an
  output message of the same conversation. The links are mapping keys, the \<^verbatim>\<open>id\<close>
  field is \<^verbatim>\<open>node.message.id || node.id\<close>: on this input the second message has the
  parent \<open>k1\<close> and the first the child \<open>k2\<close>, and no output message has such an id.
\<close>

theorem links_name_mapping_keys:
  "\<exists>out. transformConversation (plainConversation None renamedMapping) 0 = Some (Inr out) \<and>
     map q_id (o_messages out) = [Some ''m1'', Some ''m2''] \<and>
     map q_parentId (o_messages out) = [None, Some ''k1''] \<and>
     map q_childrenIds (o_messages out) = [[''k2''], []] \<and>
     Some ''k1'' \<notin> set (map q_id (o_messages out)) \<and>
     Some ''k2'' \<notin> set (map q_id (o_messages out))"
proof -
  have p: "reconstructMessagePath (plainConversation None renamedMapping) = Some [''k1'', ''k2'']"
    by (simp add: plainConversation_def renamedMapping_def path_eval)
  have "\<exists>ms. relink (plainConversation None renamedMapping) [''k1'', ''k2''] = Some (Inr ms) \<and>
     map q_id ms = [Some ''m1'', Some ''m2''] \<and>
     map q_parentId ms = [None, Some ''k1''] \<and>
     map q_childrenIds ms = [[''k2''], []]"
    by (simp add: plainConversation_def renamedMapping_def textMessage_def relink_eval
        buildQwenMessage_fields)
  then obtain ms where all:
    "relink (plainConversation None renamedMapping) [''k1'', ''k2''] = Some (Inr ms) \<and>
     map q_id ms = [Some ''m1'', Some ''m2''] \<and>
     map q_parentId ms = [None, Some ''k1''] \<and>
     map q_childrenIds ms = [[''k2''], []]" ..
  show ?thesis
    using p all by (simp add: transformConversation_def assemble_messages del: set_map)
qed


subsection \<open>C4: the current node and the reconstructed path\<close>

text \<open>
  A root \<open>r\<close> with the children \<open>x\<close> and \<open>a\<close>, in this order; \<^verbatim>\<open>current_node\<close> is
  \<open>a\<close>.
\<close>

definition branchMapping :: node_mapping where
  "branchMapping =
     [(''r'', Some (bareNode ''r'' None [''x'', ''a''])),
      (''x'', Some (bareNode ''x'' (Some ''r'') [])),
      (''a'', Some (bareNode ''a'' (Some ''r'') []))]"


text \<open>
  C4 says that the reconstructed path contains the whole ancestor path of the declared
  current node, and so the current node itself. The loop of \<^verbatim>\<open>expandPath\<close> stops at
  the first path node that has children and descends into its first child: here the
  ancestor path is \<open>r, a\<close>, the result is \<open>r, x\<close>, and \<open>a\<close> is not in it.
\<close>

theorem current_node_left_out:
  "current_node (plainConversation (Some ''a'') branchMapping) = Some ''a'' \<and>
   lookupNode (mapping (plainConversation (Some ''a'') branchMapping)) ''a'' \<noteq> None \<and>
   getPathToRoot ''a'' branchMapping = Some [''r'', ''a''] \<and>
   reconstructMessagePath (plainConversation (Some ''a'') branchMapping) = Some [''r'', ''x''] \<and>
   ''a'' \<notin> set [''r'', ''x'']"
  by (simp add: plainConversation_def branchMapping_def bareNode_def path_eval)

subsection \<open>C2: adjacency after filtering and re-linking\<close>

text \<open>
  C2: for every conversation whose node mapping is acyclic under the parent links, the
  conversion returns, and in its output every surviving node's resolved parent is
  \<^verbatim>\<open>null\<close> (when no proper ancestor survives) or the identifier of another surviving
  node, the nearest surviving ancestor on the original parent chain; each surviving
  node's children list holds exactly the surviving nodes whose resolved parent it is,
  in the order of the filtered sequence. Identifiers are mapping keys.
\<close>

theorem relinked_adjacency:
  assumes ac: "acyclic (parentRel (mapping conv))"
  shows "\<exists>ord out. reconstructMessagePath conv = Some ord \<and>
           transformConversation conv index = Some (Inr out) \<and>
           consistentAdjacency (mapping conv) (filter (qualifies conv) ord) (o_messages out)"
proof -
  let ?m = "mapping conv"
  obtain ord where ord: "reconstructMessagePath conv = Some ord"
    using reconstruct_terminates[OF wf_parentRel[OF ac]] by blast
  have d: "distinct ord" using ord by (rule reconstruct_distinct)
  let ?st = "filterNodes conv ord"
  let ?inc = "filter (qualifies conv) ord"
  let ?mmap = "messageMap ?st"
  have inc: "includedIds ?st = ?inc"
    and len: "length (messages ?st) = length ?inc"
    and pos: "\<forall>i<length ?inc. ?mmap (?inc ! i) = Some i"
    using filterNodes_inv[OF d, of conv] by simp_all
  have dinc: "distinct ?inc" using d by simp
  define rp where
    "rp = (\<lambda>k. the (findIncludedAncestor (parent (the (lookupNode ?m k))) ?inc ?m))"
  have res: "\<exists>nd. lookupNode ?m k = Some nd \<and>
               findIncludedAncestor (parent nd) ?inc ?m = Some (rp k) \<and>
               (rp k = None \<longrightarrow> noSurvivorAbove ?m (set ?inc) k) \<and>
               (\<forall>a. rp k = Some a \<longrightarrow>
                  a \<noteq> [] \<and> a \<in> set ?inc \<and> a \<noteq> k \<and> nearestSurvivor ?m (set ?inc) k a)"
    if "k \<in> set ?inc" for k
  proof -
    from that have "qualifies conv k" by simp
    then obtain nd where nd: "lookupNode ?m k = Some nd"
      using qualifies_mapped by blast
    from resolve_parent[OF ac nd, of ?inc] obtain p where
      p: "findIncludedAncestor (parent nd) ?inc ?m = Some p"
      and pp: "p = None \<longrightarrow> noSurvivorAbove ?m (set ?inc) k"
        "\<forall>a. p = Some a \<longrightarrow>
           a \<noteq> [] \<and> a \<in> set ?inc \<and> a \<noteq> k \<and> nearestSurvivor ?m (set ?inc) k a"
      by blast
    have "rp k = p" using nd p by (simp add: rp_def)
    then show ?thesis using nd p pp by simp
  qed
  have idx: "\<exists>i<length ?inc. k = ?inc ! i \<and> ?mmap k = Some i" if "k \<in> set ?inc" for k
    using that pos by (metis in_set_conv_nth)
  have inj: "inj_on ?mmap (set ?inc)"
  proof (rule inj_onI)
    fix x y assume "x \<in> set ?inc" "y \<in> set ?inc" "?mmap x = ?mmap y"
    then show "x = y" using idx[of x] idx[of y] by auto
  qed
  have e1: "\<forall>k\<in>set ?inc. \<exists>nd. lookupNode ?m k = Some nd \<and>
             findIncludedAncestor (parent nd) ?inc ?m = Some (rp k)"
    using res by blast
  have e2: "\<forall>k\<in>set ?inc. \<exists>i<length (messages ?st). ?mmap k = Some i"
    using idx len by auto
  from wireParents_result[where rp = rp, OF e1 e2 dinc inj] obtain store1 where
    w: "wireParents ?m ?inc ?mmap ?inc (messages ?st) = Some (Inr store1)"
    and l1: "length store1 = length ?inc"
    and s1: "\<forall>k\<in>set ?inc. \<forall>i. ?mmap k = Some i \<longrightarrow>
               q_parentId (store1 ! i) = rp k \<and> q_childrenIds (store1 ! i) = []"
    using len by auto
  have s1i: "q_parentId (store1 ! i) = rp (?inc ! i) \<and> q_childrenIds (store1 ! i) = []"
    if "i < length ?inc" for i
    using s1 pos that by (metis nth_mem)
  have f1: "\<forall>k\<in>set ?inc. \<exists>i<length store1. ?mmap k = Some i \<and> q_parentId (store1 ! i) = rp k"
  proof
    fix k assume "k \<in> set ?inc"
    from idx[OF this] obtain i where "i < length ?inc" "k = ?inc ! i" "?mmap k = Some i" by blast
    then show "\<exists>i<length store1. ?mmap k = Some i \<and> q_parentId (store1 ! i) = rp k"
      using s1i l1 by auto
  qed
  have f2: "\<forall>k\<in>set ?inc. \<forall>a. rp k = Some a \<longrightarrow>
              a \<noteq> [] \<and> (\<exists>j<length store1. ?mmap a = Some j)"
  proof (intro ballI allI impI)
    fix k a assume "k \<in> set ?inc" "rp k = Some a"
    then have "a \<noteq> []" "a \<in> set ?inc" using res by blast+
    then show "a \<noteq> [] \<and> (\<exists>j<length store1. ?mmap a = Some j)"
      using idx[of a] l1 by auto
  qed
  let ?msgs = "wireChildren ?mmap ?inc store1"
  note wc = wireChildren_result[where rp = rp and mmap = ?mmap and ids = ?inc
      and store = store1, OF f1 f2]
  have lm: "length ?msgs = length ?inc" using wc l1 by simp
  have pm: "q_parentId (?msgs ! i) = rp (?inc ! i)" if "i < length ?inc" for i
    using wc s1i l1 that by simp
  have cm: "q_childrenIds (?msgs ! i) =
              filter (\<lambda>k. \<exists>a. rp k = Some a \<and> ?mmap a = Some i) ?inc"
    if "i < length ?inc" for i
    using wc s1i l1 that by simp
  have ceq: "filter (\<lambda>k. \<exists>a. rp k = Some a \<and> ?mmap a = Some i) ?inc =
             filter (\<lambda>k. \<exists>j<length ?inc. ?inc ! j = k \<and>
                        q_parentId (?msgs ! j) = Some (?inc ! i)) ?inc"
    if i: "i < length ?inc" for i
  proof (rule filter_cong[OF refl])
    fix k assume k: "k \<in> set ?inc"
    from idx[OF k] obtain j where j: "j < length ?inc" "k = ?inc ! j" by blast
    show "(\<exists>a. rp k = Some a \<and> ?mmap a = Some i) =
          (\<exists>j<length ?inc. ?inc ! j = k \<and> q_parentId (?msgs ! j) = Some (?inc ! i))"
    proof
      assume "\<exists>a. rp k = Some a \<and> ?mmap a = Some i"
      then obtain a where a: "rp k = Some a" "?mmap a = Some i" by blast
      then have "a \<in> set ?inc" using res[OF k] by blast
      from idx[OF this] a(2) have "a = ?inc ! i" by auto
      then have "q_parentId (?msgs ! j) = Some (?inc ! i)" using pm[OF j(1)] j(2) a(1) by simp
      then show "\<exists>j<length ?inc. ?inc ! j = k \<and> q_parentId (?msgs ! j) = Some (?inc ! i)"
        using j by blast
    next
      assume "\<exists>j<length ?inc. ?inc ! j = k \<and> q_parentId (?msgs ! j) = Some (?inc ! i)"
      then obtain j' where j': "j' < length ?inc" "?inc ! j' = k"
        "q_parentId (?msgs ! j') = Some (?inc ! i)" by blast
      then have "rp k = Some (?inc ! i)" using pm[OF j'(1)] by simp
      moreover have "?mmap (?inc ! i) = Some i" using pos i by simp
      ultimately show "\<exists>a. rp k = Some a \<and> ?mmap a = Some i" by blast
    qed
  qed
  have rl: "relink conv ord = Some (Inr ?msgs)"
    using w by (simp add: relink_def Let_def inc)
  have tr: "transformConversation conv index = Some (Inr (assemble conv index ?msgs))"
    using ord rl by (simp add: transformConversation_def)
  have "consistentAdjacency ?m ?inc ?msgs"
    unfolding consistentAdjacency_def
  proof (intro conjI allI impI)
    show "length ?msgs = length ?inc" by (rule lm)
    show "distinct ?inc" by (rule dinc)
  next
    fix i assume i: "i < length ?inc" and "q_parentId (?msgs ! i) = None"
    then have "rp (?inc ! i) = None" using pm by simp
    then show "noSurvivorAbove ?m (set ?inc) (?inc ! i)"
      using res[OF nth_mem[OF i]] by blast
  next
    fix i a assume i: "i < length ?inc" and "q_parentId (?msgs ! i) = Some a"
    then have "rp (?inc ! i) = Some a" using pm by simp
    then have "a \<in> set ?inc \<and> a \<noteq> ?inc ! i \<and> nearestSurvivor ?m (set ?inc) (?inc ! i) a"
      using res[OF nth_mem[OF i]] by blast
    then show "a \<in> set ?inc" "a \<noteq> ?inc ! i" "nearestSurvivor ?m (set ?inc) (?inc ! i) a"
      by simp_all
  next
    fix i assume i: "i < length ?inc"
    show "q_childrenIds (?msgs ! i) =
            filter (\<lambda>k. \<exists>j<length ?inc. ?inc ! j = k \<and>
                       q_parentId (?msgs ! j) = Some (?inc ! i)) ?inc"
      using cm[OF i] ceq[OF i] by simp
  qed
  then show ?thesis using ord tr by (auto simp: assemble_messages)
qed



definition scenarioDepth :: "string \<Rightarrow> nat" where
  "scenarioDepth k =
     (if k = ''a'' then 1 else if k = ''b'' then 2 else if k = ''c'' then 3
      else if k = ''d'' then 4 else 0)"

lemma scenario_acyclic: "acyclic (parentRel (mapping scenario))"
proof -
  have s: "parentRel (mapping scenario) \<subseteq> (measure scenarioDepth)\<inverse>"
    by (auto simp: parentRel_def parentOf_def lookupNode_def scenario_def scenarioMapping_def
        orNull_def scenarioDepth_def split: if_splits)
  have a: "acyclic ((measure scenarioDepth)\<inverse>)"
    by (simp add: wf_acyclic)
  show ?thesis by (rule acyclic_subset[OF a s])
qed

lemma scenario_path: "reconstructMessagePath scenario = Some [''r'', ''a'', ''b'', ''c'', ''d'']"
  by (simp add: scenario_def scenarioMapping_def path_eval)

lemma scenario_survivors:
  "filter (qualifies scenario) [''r'', ''a'', ''b'', ''c'', ''d''] = [''a'', ''b'', ''d'']"
  by (simp add: qualifies_def scenario_def scenarioMapping_def textMessage_def lookupNode_def
      normalizeRole_def extractContent_def pushPart_def trim_def isWhiteSpace_def)

lemma scenario_links:
  "\<exists>ms. relink scenario [''r'', ''a'', ''b'', ''c'', ''d''] = Some (Inr ms) \<and>
     map q_parentId ms = [None, Some ''a'', Some ''b''] \<and>
     map q_childrenIds ms = [[''b''], [''d''], []]"
  by (simp add: scenario_def scenarioMapping_def textMessage_def relink_eval
      buildQwenMessage_fields)



theorem relinked_adjacency_witness:
  "acyclic (parentRel (mapping scenario)) \<and>
   reconstructMessagePath scenario = Some [''r'', ''a'', ''b'', ''c'', ''d''] \<and>
   filter (qualifies scenario) [''r'', ''a'', ''b'', ''c'', ''d''] = [''a'', ''b'', ''d''] \<and>
   (\<exists>out. transformConversation scenario 0 = Some (Inr out) \<and>
      consistentAdjacency (mapping scenario) [''a'', ''b'', ''d''] (o_messages out) \<and>
      map q_parentId (o_messages out) = [None, Some ''a'', Some ''b''] \<and>
      map q_childrenIds (o_messages out) = [[''b''], [''d''], []])"
proof -
  from relinked_adjacency[OF scenario_acyclic, of 0] obtain ord where
    "\<exists>out. reconstructMessagePath scenario = Some ord \<and>
       transformConversation scenario 0 = Some (Inr out) \<and>
       consistentAdjacency (mapping scenario) (filter (qualifies scenario) ord)
         (o_messages out)" ..
  then obtain out where all:
    "reconstructMessagePath scenario = Some ord \<and>
     transformConversation scenario 0 = Some (Inr out) \<and>
     consistentAdjacency (mapping scenario) (filter (qualifies scenario) ord)
       (o_messages out)" ..
  note o = all[THEN conjunct1]
  note t = all[THEN conjunct2, THEN conjunct1]
  note c = all[THEN conjunct2, THEN conjunct2]
  have ord: "ord = [''r'', ''a'', ''b'', ''c'', ''d'']"
    using o unfolding scenario_path by (simp only: option.inject)
  from scenario_links obtain ms where ms:
    "relink scenario [''r'', ''a'', ''b'', ''c'', ''d''] = Some (Inr ms) \<and>
     map q_parentId ms = [None, Some ''a'', Some ''b''] \<and>
     map q_childrenIds ms = [[''b''], [''d''], []]" ..
  have t': "transformConversation scenario 0 = Some (Inr (assemble scenario 0 ms))"
    by (simp add: transformConversation_def scenario_path ms[THEN conjunct1])
  from trans[OF t[symmetric] t']
  have "o_messages out = o_messages (assemble scenario 0 ms)" by simp
  then have m: "o_messages out = ms" by (simp only: assemble_messages)
  have c': "consistentAdjacency (mapping scenario) [''a'', ''b'', ''d''] (o_messages out)"
    using c unfolding ord scenario_survivors .
  have p: "map q_parentId (o_messages out) = [None, Some ''a'', Some ''b'']"
    unfolding m by (rule ms[THEN conjunct2, THEN conjunct1])
  have ch: "map q_childrenIds (o_messages out) = [[''b''], [''d''], []]"
    unfolding m by (rule ms[THEN conjunct2, THEN conjunct2])
  have e: "\<exists>out. transformConversation scenario 0 = Some (Inr out) \<and>
      consistentAdjacency (mapping scenario) [''a'', ''b'', ''d''] (o_messages out) \<and>
      map q_parentId (o_messages out) = [None, Some ''a'', Some ''b''] \<and>
      map q_childrenIds (o_messages out) = [[''b''], [''d''], []]"
    by (rule exI[of _ out]) (intro conjI t c' p ch)
  show ?thesis
    by (intro conjI scenario_acyclic scenario_path scenario_survivors e)
qed

end
